theory Spec2Isabelle
  imports Complex_Main "HOL-Library.AList" "HOL-Library.Multiset"
begin

section \<open>Conventions of the embedding\<close>

text \<open>
  The development embeds the timing core of the lecture generator:
  \<^item> \<^verbatim>\<open>sync_subtitles.py\<close>: \<^verbatim>\<open>get_audio_durations\<close> and \<^verbatim>\<open>parse_srt_file\<close>, that is the blocks
    of the subtitle file, the slide boundaries built from the audio durations, and the
    assignment of the parsed subtitles to slides;
  \<^item> \<^verbatim>\<open>lecture_generator.py\<close> and \<^verbatim>\<open>lecture_gen.py\<close>: \<^verbatim>\<open>clean_for_tts\<close>,
    \<^verbatim>\<open>split_into_sentences\<close>, \<^verbatim>\<open>load_slides_content\<close>, \<^verbatim>\<open>generate_audio_segments\<close> and
    \<^verbatim>\<open>generate_subtitles\<close>.

  Times and durations are Python floats in the source. They are modelled as real numbers,
  so every statement about them is a statement in exact arithmetic; floating-point
  rounding is outside the model.

  A Python \<^verbatim>\<open>str\<close> is a sequence of Unicode code points and is modelled as a list of natural
  numbers. A Python \<^verbatim>\<open>dict\<close> keeps its keys in insertion order and is modelled as an
  association list with distinct keys.

  Exceptions are values: a function that can raise returns \<open>error + 'a\<close>.
\<close>

datatype error = KeyError | ZeroDivisionError | ValueError | UpstreamFailure

type_synonym pystr = "nat list"

text \<open>A string literal of the source, as its code points.\<close>

definition lit :: "string \<Rightarrow> pystr" where
  "lit s = map of_char s"

type_synonym ('k, 'v) dict = "('k \<times> 'v) list"

text \<open>\<^verbatim>\<open>d[k]\<close> raises \<^verbatim>\<open>KeyError\<close> on a missing key.\<close>

definition dict_get :: "('k, 'v) dict \<Rightarrow> 'k \<Rightarrow> error + 'v" where
  "dict_get d k = (case map_of d k of None \<Rightarrow> Inl KeyError | Some v \<Rightarrow> Inr v)"

text \<open>
  \<^verbatim>\<open>d[k] = v\<close> is \<^const>\<open>AList.update\<close>: the value of an existing key is replaced in place,
  a new key goes to the end.
\<close>

text \<open>\<^verbatim>\<open>a / b\<close> raises \<^verbatim>\<open>ZeroDivisionError\<close> when \<^verbatim>\<open>b\<close> is zero.\<close>

definition truediv :: "real \<Rightarrow> real \<Rightarrow> error + real" where
  "truediv a b = (if b = 0 then Inl ZeroDivisionError else Inr (a / b))"

section \<open>Strings of the source\<close>

text \<open>
  \<^verbatim>\<open>str.isspace\<close>, which \<^verbatim>\<open>str.strip()\<close> uses: the white space of Unicode, by code point
  (U+0009 to U+000D, U+001C to U+0020, U+0085, U+00A0, U+1680, U+2000 to U+200A, U+2028,
  U+2029, U+202F, U+205F, U+3000).
\<close>

definition isspace :: "nat \<Rightarrow> bool" where
  "isspace c =
     ((9 \<le> c \<and> c \<le> 13) \<or> (28 \<le> c \<and> c \<le> 32) \<or> c = 133 \<or> c = 160 \<or> c = 5760 \<or>
      (8192 \<le> c \<and> c \<le> 8202) \<or> c = 8232 \<or> c = 8233 \<or> c = 8239 \<or> c = 8287 \<or> c = 12288)"

definition strip :: "pystr \<Rightarrow> pystr" where
  "strip s = rev (dropWhile isspace (rev (dropWhile isspace s)))"

text \<open>\<^verbatim>\<open>s.split(sep)\<close> for a separator of one character; the source splits at line feeds.\<close>

fun split_on :: "nat \<Rightarrow> pystr \<Rightarrow> pystr list" where
  "split_on sep [] = [[]]"
| "split_on sep (c # cs) =
     (if c = sep then [] # split_on sep cs
      else (case split_on sep cs of [] \<Rightarrow> [[c]] | w # ws \<Rightarrow> (c # w) # ws))"

fun join :: "pystr \<Rightarrow> pystr list \<Rightarrow> pystr" where
  "join sep [] = []"
| "join sep [x] = x"
| "join sep (x # y # ys) = x @ sep @ join sep (y # ys)"

definition endswith :: "pystr \<Rightarrow> pystr \<Rightarrow> bool" where
  "endswith s suf = (length suf \<le> length s \<and> drop (length s - length suf) s = suf)"

text \<open>
  \<^verbatim>\<open>text.replace(old, new)\<close>: every occurrence of \<^verbatim>\<open>old\<close>, found from the left and without
  overlap, becomes \<^verbatim>\<open>new\<close>; an empty \<^verbatim>\<open>old\<close> matches before every character and at the end.
\<close>

function replace :: "pystr \<Rightarrow> pystr \<Rightarrow> pystr \<Rightarrow> pystr" where
  "replace old new text =
     (if old = [] then new @ concat (map (\<lambda>c. c # new) text)
      else if text = [] then []
      else if take (length old) text = old
           then new @ replace old new (drop (length old) text)
           else hd text # replace old new (tl text))"
  by pat_completeness auto
termination
  by (relation "measure (\<lambda>(old, new, text). length text)") auto

declare replace.simps [simp del]

text \<open>\<^verbatim>\<open>str(n)\<close> for \<^verbatim>\<open>n >= 0\<close>, as an f-string formats a slide number.\<close>

function decimal :: "nat \<Rightarrow> pystr" where
  "decimal n = (if n < 10 then [48 + n] else decimal (n div 10) @ [48 + n mod 10])"
  by pat_completeness auto
termination
  by (relation "measure id") auto

declare decimal.simps [simp del]

section \<open>sync\_subtitles.py: the re-binner\<close>

text \<open>
  The entries of \<^verbatim>\<open>slide_boundaries\<close> are dicts with the keys \<^verbatim>\<open>start\<close> and \<^verbatim>\<open>end\<close>; the parsed
  subtitles and the entries of the result are dicts with the keys \<^verbatim>\<open>start\<close>, \<^verbatim>\<open>end\<close> and
  \<^verbatim>\<open>text\<close>.
\<close>

record bounds =
  b_start :: real
  b_end :: real

record subtitle =
  sub_start :: real
  sub_end :: real
  sub_text :: pystr

text \<open>
  \<^verbatim>\<open>get_audio_durations\<close>, lines 10 to 21. The file system, the pattern of the file names
  and the decoder are outside the model: the argument lists, in the order of the sorted
  paths, the slide number in the name of each file with the number of samples and the
  sample rate that \<^verbatim>\<open>librosa.load\<close> returns. The paths are sorted as strings, so
  \<^verbatim>\<open>audio_slide_10.wav\<close> comes before \<^verbatim>\<open>audio_slide_2.wav\<close>: the keys of the dict are not
  inserted in numeric order.
\<close>

fun durations_loop :: "(int \<times> nat \<times> nat) list \<Rightarrow> (int, real) dict \<Rightarrow> error + (int, real) dict"
where
  "durations_loop [] durations = Inr durations"
| "durations_loop ((slide_num, n_samples, sample_rate) # files) durations =
     (case truediv (real n_samples) (real sample_rate) of
        Inl e \<Rightarrow> Inl e
      | Inr d \<Rightarrow> durations_loop files (AList.update slide_num d durations))"

definition get_audio_durations :: "(int \<times> nat \<times> nat) list \<Rightarrow> error + (int, real) dict" where
  "get_audio_durations files = durations_loop files []"

text \<open>
  \<^verbatim>\<open>parse_srt_file\<close>, lines 23 to 94. Its two regular expressions are parameters:
  \<open>split_blocks\<close> is \<^verbatim>\<open>re.split(r'\n\s*\n', content.strip())\<close>, and \<open>timing\<close> is the
  \<^verbatim>\<open>re.search\<close> of the time line, which gives the eight numbers of a match (hours,
  minutes, seconds and milliseconds of the start and of the end) or nothing.
\<close>

record srt_timing =
  start_h :: nat
  start_m :: nat
  start_s :: nat
  start_ms :: nat
  end_h :: nat
  end_m :: nat
  end_s :: nat
  end_ms :: nat

text \<open>
  Lines 31 to 38. The loop runs over \<^verbatim>\<open>sorted(audio_durations.keys())\<close>; its state is
  \<^verbatim>\<open>cumulative_time\<close> and the dict \<^verbatim>\<open>slide_boundaries\<close>.
\<close>

fun boundaries_loop ::
  "(int, real) dict \<Rightarrow> int list \<Rightarrow> real \<Rightarrow> (int, bounds) dict \<Rightarrow> error + (int, bounds) dict"
where
  "boundaries_loop audio_durations [] cumulative_time sb = Inr sb"
| "boundaries_loop audio_durations (slide_num # rest) cumulative_time sb =
     (case dict_get audio_durations slide_num of
        Inl e \<Rightarrow> Inl e
      | Inr d \<Rightarrow>
          boundaries_loop audio_durations rest (cumulative_time + d)
            (AList.update slide_num
               \<lparr>b_start = cumulative_time, b_end = cumulative_time + d\<rparr> sb))"

definition slide_boundaries :: "(int, real) dict \<Rightarrow> error + (int, bounds) dict" where
  "slide_boundaries audio_durations =
     boundaries_loop audio_durations (sort (map fst audio_durations)) 0 []"

text \<open>
  Lines 81 to 92, the inner loop for one subtitle: the first entry of
  \<^verbatim>\<open>slide_boundaries.items()\<close> whose interval holds the subtitle's start receives the
  subtitle, shifted to the slide's start, and the loop breaks.
\<close>

fun assign_subtitle ::
  "(int, bounds) dict \<Rightarrow> subtitle \<Rightarrow> (int, subtitle list) dict \<Rightarrow>
   error + (int, subtitle list) dict"
where
  "assign_subtitle [] sub by_slide = Inr by_slide"
| "assign_subtitle ((slide_num, bnd) # rest) sub by_slide =
     (if b_start bnd \<le> sub_start sub \<and> sub_start sub < b_end bnd then
        (let by_slide1 =
               (if map_of by_slide slide_num = None
                then AList.update slide_num [] by_slide else by_slide)
         in case dict_get by_slide1 slide_num of
              Inl e \<Rightarrow> Inl e
            | Inr entries \<Rightarrow>
                Inr (AList.update slide_num
                       (entries @
                        [\<lparr>sub_start = sub_start sub - b_start bnd,
                          sub_end = sub_end sub - b_start bnd,
                          sub_text = sub_text sub\<rparr>])
                       by_slide1))
      else assign_subtitle rest sub by_slide)"

text \<open>Lines 77 to 94, the outer loop over \<^verbatim>\<open>all_subtitles\<close>.\<close>

fun assign_all ::
  "(int, bounds) dict \<Rightarrow> subtitle list \<Rightarrow> (int, subtitle list) dict \<Rightarrow>
   error + (int, subtitle list) dict"
where
  "assign_all sb [] by_slide = Inr by_slide"
| "assign_all sb (sub # subs) by_slide =
     (case assign_subtitle sb sub by_slide of
        Inl e \<Rightarrow> Inl e
      | Inr by_slide' \<Rightarrow> assign_all sb subs by_slide')"

text \<open>
  The re-binner: what \<^verbatim>\<open>parse_srt_file\<close> does with the parsed list \<^verbatim>\<open>all_subtitles\<close>, whatever
  that list is. The boundaries come from the durations, then every subtitle is assigned,
  starting from the empty dict \<^verbatim>\<open>subtitles_by_slide\<close>.
\<close>

definition subtitles_by_slide ::
  "subtitle list \<Rightarrow> (int, real) dict \<Rightarrow> error + (int, subtitle list) dict"
where
  "subtitles_by_slide all_subtitles audio_durations =
     (case slide_boundaries audio_durations of
        Inl e \<Rightarrow> Inl e
      | Inr sb \<Rightarrow> assign_all sb all_subtitles [])"

text \<open>
  Lines 44 to 74, the loop over the blocks: a blank block, a block of fewer than three
  lines and a block whose second line is no time line are skipped.
\<close>

fun parse_blocks :: "(pystr \<Rightarrow> srt_timing option) \<Rightarrow> pystr list \<Rightarrow> subtitle list \<Rightarrow> subtitle list"
where
  "parse_blocks timing [] all_subtitles = all_subtitles"
| "parse_blocks timing (block # blocks) all_subtitles =
     (if strip block = [] then parse_blocks timing blocks all_subtitles
      else
        let lines = split_on 10 (strip block)
        in if length lines < 3 then parse_blocks timing blocks all_subtitles
           else
             (case timing (lines ! 1) of
                None \<Rightarrow> parse_blocks timing blocks all_subtitles
              | Some g \<Rightarrow>
                  parse_blocks timing blocks
                    (all_subtitles @
                     [\<lparr>sub_start =
                         real (start_h g) * 3600 + real (start_m g) * 60 + real (start_s g) +
                         real (start_ms g) / 1000,
                       sub_end =
                         real (end_h g) * 3600 + real (end_m g) * 60 + real (end_s g) +
                         real (end_ms g) / 1000,
                       sub_text = join (lit '' '') (drop 2 lines)\<rparr>])))"

definition parse_srt_file ::
  "(pystr \<Rightarrow> pystr list) \<Rightarrow> (pystr \<Rightarrow> srt_timing option) \<Rightarrow> pystr \<Rightarrow> (int, real) dict \<Rightarrow>
   error + (int, subtitle list) dict"
where
  "parse_srt_file split_blocks timing content audio_durations =
     (let blocks = split_blocks (strip content)
      in case slide_boundaries audio_durations of
           Inl e \<Rightarrow> Inl e
         | Inr sb \<Rightarrow> assign_all sb (parse_blocks timing blocks []) [])"

subsection \<open>Notions used to state the properties of the re-binner\<close>

fun boundaries_from :: "real \<Rightarrow> (int \<times> real) list \<Rightarrow> (int, bounds) dict" where
  "boundaries_from t [] = []"
| "boundaries_from t ((k, d) # r) = (k, \<lparr>b_start = t, b_end = t + d\<rparr>) # boundaries_from (t + d) r"

definition in_bounds :: "bounds \<Rightarrow> subtitle \<Rightarrow> bool" where
  "in_bounds bnd sub = (b_start bnd \<le> sub_start sub \<and> sub_start sub < b_end bnd)"

definition slide_of :: "(int, bounds) dict \<Rightarrow> subtitle \<Rightarrow> (int \<times> bounds) option" where
  "slide_of sb sub = find (\<lambda>p. in_bounds (snd p) sub) sb"

definition shifted :: "bounds \<Rightarrow> subtitle \<Rightarrow> subtitle" where
  "shifted bnd sub =
     \<lparr>sub_start = sub_start sub - b_start bnd, sub_end = sub_end sub - b_start bnd,
      sub_text = sub_text sub\<rparr>"

definition entries_of :: "(int, subtitle list) dict \<Rightarrow> int \<Rightarrow> subtitle list" where
  "entries_of by_slide n = (case map_of by_slide n of None \<Rightarrow> [] | Some es \<Rightarrow> es)"

definition new_entries :: "(int, bounds) dict \<Rightarrow> subtitle list \<Rightarrow> int \<Rightarrow> subtitle list" where
  "new_entries sb subs n =
     concat (map (\<lambda>sub. case slide_of sb sub of
                          None \<Rightarrow> []
                        | Some (m, bnd) \<Rightarrow> if m = n then [shifted bnd sub] else []) subs)"

section \<open>lecture\_generator.py and lecture\_gen.py: text, audio and subtitles\<close>

text \<open>
  The two files hold two versions of the same generator. Where they differ, the version of
  \<^verbatim>\<open>lecture_gen.py\<close> carries the suffix \<open>_gen\<close>.

  The regular expressions are evaluated by Python's \<^verbatim>\<open>re\<close> module, the sentences are found
  by NLTK, and the audio is made by a speech engine and measured by librosa. None of them
  is code of the repository; each is a parameter of the functions that call it, and every
  property below holds whatever these libraries compute.
\<close>

subsection \<open>The calls of \<^verbatim>\<open>re.sub\<close>\<close>

text \<open>
  One constructor for each substitution of the source, in the order of
  \<^verbatim>\<open>lecture_generator.py\<close>; the parameter \<open>re_sub\<close> maps a call and a text to the text after
  the substitution.
  \<^item> \<open>Blanks\<close> is \<^verbatim>\<open>re.sub(r'[ \t]+', ' ', text)\<close>;
  \<^item> \<open>Period_upper\<close> is \<^verbatim>\<open>re.sub(r'\.([A-Z])', r'. \1', text)\<close>;
  \<^item> \<open>Comma_letter\<close> is \<^verbatim>\<open>re.sub(r',([A-Za-z])', r', \1', text)\<close>;
  \<^item> \<open>Lower_upper\<close> is \<^verbatim>\<open>re.sub(r'([a-z])([A-Z])', r'\1 \2', text)\<close>;
  \<^item> \<open>Lower_digit\<close> is \<^verbatim>\<open>re.sub(r'([a-z])(\d)', r'\1 \2', text)\<close>;
  \<^item> \<open>Digit_lower\<close> is \<^verbatim>\<open>re.sub(r'(\d)([a-z])', r'\1 \2', text)\<close>;
  \<^item> \<open>Word_ignorecase w r\<close> is \<^verbatim>\<open>re.sub(r'\bw\b', r, text, flags=re.IGNORECASE)\<close>, for the
    ordinals;
  \<^item> \<open>Word w r\<close> is \<^verbatim>\<open>re.sub(r'\bw\b', r, text)\<close>, for the acronyms;
  \<^item> \<open>Whitespace\<close> is \<^verbatim>\<open>re.sub(r'\s+', ' ', text)\<close>;
  \<^item> \<open>Periods\<close> is \<^verbatim>\<open>re.sub(r'\.{2,}', '.', text)\<close>;
  \<^item> \<open>Commas\<close> is \<^verbatim>\<open>re.sub(r',{2,}', ',', text)\<close>.
\<close>

datatype re_call =
    Blanks
  | Period_upper
  | Comma_letter
  | Lower_upper
  | Lower_digit
  | Digit_lower
  | Word_ignorecase pystr pystr
  | Word pystr pystr
  | Whitespace
  | Periods
  | Commas

subsection \<open>\<^verbatim>\<open>TextPreprocessor.clean_for_tts\<close>\<close>

text \<open>
  The loop over the lines (lines 46 to 61 of \<^verbatim>\<open>lecture_generator.py\<close>, 75 to 92 of
  \<^verbatim>\<open>lecture_gen.py\<close>): a line that follows a line ending in \<^verbatim>\<open>. ! ? :\<close> stays apart, any other
  line is joined to the one before it; blank lines are skipped.
\<close>

fun join_lines :: "pystr list \<Rightarrow> pystr list \<Rightarrow> pystr list" where
  "join_lines [] processed = processed"
| "join_lines (l # lines) processed =
     (let line = strip l in
      if line = [] then join_lines lines processed
      else if processed \<noteq> [] then
        (let prev = last processed in
         if list_ex (endswith prev) [lit ''.'', lit ''!'', lit ''?'', lit '':'']
         then join_lines lines (processed @ [line])
         else join_lines lines (butlast processed @ [prev @ lit '' '' @ line]))
      else join_lines lines (processed @ [line]))"

text \<open>
  The end of both versions (lines 122 to 128, and 131 to 135): the text is stripped, and a
  period is appended to a non-empty text whose last character is none of \<^verbatim>\<open>. ! ?\<close>.
\<close>

definition end_punctuation :: "pystr \<Rightarrow> pystr" where
  "end_punctuation text0 =
     (let text = strip text0
      in if text \<noteq> [] \<and> last text \<notin> set (lit ''.!?'') then text @ lit ''.'' else text)"

definition abbreviations :: "(pystr \<times> pystr) list" where
  "abbreviations =
     [(lit ''Dr.'', lit ''Doctor''), (lit ''Mr.'', lit ''Mister''),
      (lit ''Mrs.'', lit ''Misses''), (lit ''Ms.'', lit ''Miss''),
      (lit ''Prof.'', lit ''Professor''), (lit ''vs.'', lit ''versus''),
      (lit ''etc.'', lit ''etcetera''), (lit ''e.g.'', lit ''for example''),
      (lit ''i.e.'', lit ''that is''), (lit ''w/'', lit ''with''),
      (lit ''w/o'', lit ''without''), (lit ''govt.'', lit ''government''),
      (lit ''dept.'', lit ''department''), (lit ''approx.'', lit ''approximately''),
      (lit ''min.'', lit ''minutes''), (lit ''max.'', lit ''maximum''),
      (lit ''avg.'', lit ''average'')]"

definition abbreviations_gen :: "(pystr \<times> pystr) list" where
  "abbreviations_gen = take 9 abbreviations"

definition expand :: "(pystr \<times> pystr) list \<Rightarrow> pystr \<Rightarrow> pystr" where
  "expand abbrs text = foldl (\<lambda>t (abbr, full). replace abbr full t) text abbrs"

text \<open>The em dash is U+2014 and the en dash U+2013.\<close>

definition clean_for_tts :: "(re_call \<Rightarrow> pystr \<Rightarrow> pystr) \<Rightarrow> pystr \<Rightarrow> pystr" where
  "clean_for_tts re_sub text0 =
     (if text0 = [] then []
      else
        let text = re_sub Blanks text0;
            text = join (lit '' '') (join_lines (split_on 10 text) []);
            text = re_sub Period_upper text;
            text = re_sub Comma_letter text;
            text = re_sub Lower_upper text;
            text = re_sub Lower_digit text;
            text = re_sub Digit_lower text;
            text = replace [8212] (lit '', '') text;
            text = replace [8211] (lit '', '') text;
            text = replace (lit '' - '') (lit '', '') text;
            text = expand abbreviations text;
            text = re_sub (Word_ignorecase (lit ''1st'') (lit ''first'')) text;
            text = re_sub (Word_ignorecase (lit ''2nd'') (lit ''second'')) text;
            text = re_sub (Word_ignorecase (lit ''3rd'') (lit ''third'')) text;
            text = re_sub (Word_ignorecase (lit ''4th'') (lit ''fourth'')) text;
            text = re_sub (Word_ignorecase (lit ''5th'') (lit ''fifth'')) text;
            text = re_sub (Word (lit ''AI'') (lit ''A.I.'')) text;
            text = re_sub (Word (lit ''API'') (lit ''A.P.I.'')) text;
            text = re_sub (Word (lit ''UI'') (lit ''U.I.'')) text;
            text = re_sub (Word (lit ''URL'') (lit ''U.R.L.'')) text;
            text = re_sub (Word (lit ''PDF'') (lit ''P.D.F.'')) text;
            text = re_sub (Word (lit ''TTS'') (lit ''text to speech'')) text;
            text = re_sub (Word (lit ''LLM'') (lit ''large language model'')) text;
            text = re_sub Whitespace text;
            text = re_sub Periods text;
            text = re_sub Commas text
        in end_punctuation text)"

definition clean_for_tts_gen :: "(re_call \<Rightarrow> pystr \<Rightarrow> pystr) \<Rightarrow> pystr \<Rightarrow> pystr" where
  "clean_for_tts_gen re_sub text0 =
     (if text0 = [] then []
      else
        let text = re_sub Blanks text0;
            text = join (lit '' '') (join_lines (split_on 10 text) []);
            text = re_sub Period_upper text;
            text = re_sub Comma_letter text;
            text = re_sub Lower_upper text;
            text = re_sub Whitespace text;
            text = replace [8212] (lit '', '') text;
            text = replace [8211] (lit '', '') text;
            text = expand abbreviations_gen text;
            text = re_sub (Word_ignorecase (lit ''1st'') (lit ''first'')) text;
            text = re_sub (Word_ignorecase (lit ''2nd'') (lit ''second'')) text;
            text = re_sub (Word_ignorecase (lit ''3rd'') (lit ''third'')) text
        in end_punctuation text)"

subsection \<open>\<^verbatim>\<open>TextPreprocessor.split_into_sentences\<close>\<close>

text \<open>
  \<open>sent_tokenize\<close> is NLTK's tokenizer, \<open>None\<close> when it raises; \<open>re_split\<close> is the fallback
  \<^verbatim>\<open>re.split\<close> at white space after a sentence end. The filter and the strip are the
  source's.
\<close>

definition split_into_sentences ::
  "(pystr \<Rightarrow> pystr list option) \<Rightarrow> (pystr \<Rightarrow> pystr list) \<Rightarrow> pystr \<Rightarrow> pystr list"
where
  "split_into_sentences sent_tokenize re_split text =
     (let sentences = (case sent_tokenize text of Some ss \<Rightarrow> ss | None \<Rightarrow> re_split text)
      in map strip (filter (\<lambda>s. strip s \<noteq> []) sentences))"

subsection \<open>The session: slides and subtitle segments\<close>

record SlideContent =
  slide_number :: int
  image_path :: pystr
  narration_text :: pystr
  duration :: real
  start_time :: real

text \<open>
  \<^verbatim>\<open>SubtitleSegment\<close> has the fields \<^verbatim>\<open>text\<close>, \<^verbatim>\<open>start_time\<close> and \<^verbatim>\<open>end_time\<close>; they carry the
  prefix \<open>seg_\<close> here, apart from the fields of a slide.
\<close>

record SubtitleSegment =
  seg_text :: pystr
  seg_start_time :: real
  seg_end_time :: real

text \<open>
  An entry of the list \<^verbatim>\<open>slides\<close> of the content file: each of the keys \<^verbatim>\<open>narration_text\<close>,
  \<^verbatim>\<open>slide_text\<close> and \<^verbatim>\<open>image_path\<close> may be missing.
\<close>

record slide_entry =
  entry_narration_text :: "pystr option"
  entry_slide_text :: "pystr option"
  entry_image_path :: "pystr option"

text \<open>
  \<^verbatim>\<open>load_slides_content\<close>, after the file has been read: slide \<open>i + 1\<close> for the entry at index
  \<open>i\<close>, with the cleaned narration, duration 0 and start 0 (the defaults of the dataclass).
  The narration is the value of \<^verbatim>\<open>narration_text\<close>, else that of \<^verbatim>\<open>slide_text\<close>, else empty.
  The two versions differ in the cleaning and in the default image path.
\<close>

definition load_slides_content ::
  "(re_call \<Rightarrow> pystr \<Rightarrow> pystr) \<Rightarrow> slide_entry list \<Rightarrow> SlideContent list"
where
  "load_slides_content re_sub entries =
     map (\<lambda>(i, s).
            let raw = (case entry_narration_text s of
                         Some t \<Rightarrow> t
                       | None \<Rightarrow> (case entry_slide_text s of Some t \<Rightarrow> t | None \<Rightarrow> []));
                clean = clean_for_tts re_sub raw
            in \<lparr>slide_number = int i + 1,
                image_path = (case entry_image_path s of Some p \<Rightarrow> p | None \<Rightarrow> []),
                narration_text = clean, duration = 0, start_time = 0\<rparr>)
         (enumerate 0 entries)"

definition load_slides_content_gen ::
  "(re_call \<Rightarrow> pystr \<Rightarrow> pystr) \<Rightarrow> slide_entry list \<Rightarrow> SlideContent list"
where
  "load_slides_content_gen re_sub entries =
     map (\<lambda>(i, slide_data).
            let raw_narration =
                  (case entry_narration_text slide_data of
                     Some t \<Rightarrow> t
                   | None \<Rightarrow> (case entry_slide_text slide_data of Some t \<Rightarrow> t | None \<Rightarrow> []));
                clean_narration = clean_for_tts_gen re_sub raw_narration
            in \<lparr>slide_number = int i + 1,
                image_path =
                  (case entry_image_path slide_data of
                     Some p \<Rightarrow> p
                   | None \<Rightarrow> lit ''slides/slide_'' @ decimal (i + 1) @ lit ''.png''),
                narration_text = clean_narration, duration = 0, start_time = 0\<rparr>)
         (enumerate 0 entries)"

subsection \<open>\<^verbatim>\<open>generate_audio_segments\<close>\<close>

text \<open>
  The speech engine with the decoder is the parameter \<open>engine\<close>: for a text it gives the
  number of samples and the sample rate of the audio that \<^verbatim>\<open>librosa.load\<close> returns, or it
  fails. \<^verbatim>\<open>tts_to_wav\<close> of \<^verbatim>\<open>lecture_generator.py\<close> refuses a blank text before it calls the
  engine; \<^verbatim>\<open>lecture_gen.py\<close> calls the engine directly.
\<close>

definition tts_to_wav ::
  "(pystr \<Rightarrow> error + nat \<times> nat) \<Rightarrow> pystr \<Rightarrow> error + nat \<times> nat"
where
  "tts_to_wav engine text0 =
     (let text = strip text0 in if text = [] then Inl ValueError else engine text)"

text \<open>
  The loop of \<^verbatim>\<open>generate_audio_segments\<close>. Its state is \<^verbatim>\<open>cumulative\<close>, the list
  \<^verbatim>\<open>audio_files\<close> (here the numbers of the slides whose file was written) and the slides
  already visited, as the loop leaves them. An exception of the engine ends the run.
\<close>

fun audio_loop ::
  "(pystr \<Rightarrow> error + nat \<times> nat) \<Rightarrow> SlideContent list \<Rightarrow> real \<Rightarrow> int list \<Rightarrow>
   SlideContent list \<Rightarrow> error + int list \<times> SlideContent list"
where
  "audio_loop tts [] cumulative audio_files visited = Inr (audio_files, visited)"
| "audio_loop tts (slide # rest) cumulative audio_files visited =
     (if strip (narration_text slide) = []
      then audio_loop tts rest cumulative audio_files (visited @ [slide])
      else
        (case tts (narration_text slide) of
           Inl e \<Rightarrow> Inl e
         | Inr (n_samples, sr) \<Rightarrow>
             (case truediv (real n_samples) (real sr) of
                Inl e \<Rightarrow> Inl e
              | Inr d \<Rightarrow>
                  audio_loop tts rest (cumulative + d)
                    (audio_files @ [slide_number slide])
                    (visited @ [slide\<lparr>duration := d, start_time := cumulative\<rparr>]))))"

definition generate_audio_segments ::
  "(pystr \<Rightarrow> error + nat \<times> nat) \<Rightarrow> SlideContent list \<Rightarrow>
   error + int list \<times> SlideContent list"
where
  "generate_audio_segments tts slides = audio_loop tts slides 0 [] []"

subsection \<open>\<^verbatim>\<open>generate_subtitles\<close>\<close>

text \<open>
  The body of the loop for one slide, in both versions: the segments it appends to
  \<^verbatim>\<open>self.subtitles\<close>. \<open>split\<close> is \<^verbatim>\<open>split_into_sentences\<close>.
\<close>

definition slide_subtitles ::
  "(pystr \<Rightarrow> pystr list) \<Rightarrow> SlideContent \<Rightarrow> error + SubtitleSegment list"
where
  "slide_subtitles split slide =
     (if strip (narration_text slide) = [] \<or> duration slide = 0 then Inr []
      else
        let sentences = split (narration_text slide)
        in if sentences = [] then Inr []
           else
             (case truediv (duration slide) (real (length sentences)) of
                Inl e \<Rightarrow> Inl e
              | Inr dur \<Rightarrow>
                  Inr (map (\<lambda>(i, sent).
                              \<lparr>seg_text = sent,
                               seg_start_time = start_time slide + real i * dur,
                               seg_end_time = start_time slide + (real i + 1) * dur\<rparr>)
                           (enumerate 0 sentences))))"

definition slide_subtitles_gen ::
  "(pystr \<Rightarrow> pystr list) \<Rightarrow> SlideContent \<Rightarrow> error + SubtitleSegment list"
where
  "slide_subtitles_gen split slide =
     (if strip (narration_text slide) = [] \<or> duration slide = 0 then Inr []
      else
        let sentences = split (narration_text slide)
        in if sentences = [] then Inr []
           else
             (case truediv (duration slide) (real (length sentences)) of
                Inl e \<Rightarrow> Inl e
              | Inr sentence_duration \<Rightarrow>
                  Inr (map (\<lambda>(i, sentence).
                              let start = start_time slide + real i * sentence_duration
                              in \<lparr>seg_text = strip sentence,
                                  seg_start_time = start,
                                  seg_end_time = start + sentence_duration\<rparr>)
                           (enumerate 0 sentences))))"

fun subtitles_loop ::
  "(SlideContent \<Rightarrow> error + SubtitleSegment list) \<Rightarrow> SlideContent list \<Rightarrow>
   SubtitleSegment list \<Rightarrow> error + SubtitleSegment list"
where
  "subtitles_loop body [] subtitles = Inr subtitles"
| "subtitles_loop body (slide # rest) subtitles =
     (case body slide of
        Inl e \<Rightarrow> Inl e
      | Inr segments \<Rightarrow> subtitles_loop body rest (subtitles @ segments))"

definition generate_subtitles ::
  "(pystr \<Rightarrow> pystr list) \<Rightarrow> SlideContent list \<Rightarrow> error + SubtitleSegment list"
where
  "generate_subtitles split slides = subtitles_loop (slide_subtitles split) slides []"

definition generate_subtitles_gen ::
  "(pystr \<Rightarrow> pystr list) \<Rightarrow> SlideContent list \<Rightarrow> error + SubtitleSegment list"
where
  "generate_subtitles_gen split slides = subtitles_loop (slide_subtitles_gen split) slides []"

subsection \<open>Stand-ins for the libraries, used in the examples\<close>

text \<open>
  The examples need values for the libraries. \<open>keep_text\<close> is what \<^verbatim>\<open>re.sub\<close> returns on the
  texts of the examples, where a pattern either does not match or replaces a single
  space by itself. On a text whose sentences are single words, as \<^verbatim>\<open>Hi. Yo.\<close>, the
  tokenizer and the fallback both split at the spaces: \<open>space_tokenize\<close> and
  \<open>space_split\<close>. \<open>one_second_per_char\<close> is an engine whose audio, at 22050 samples per
  second, lasts one second for each character.
\<close>

definition keep_text :: "re_call \<Rightarrow> pystr \<Rightarrow> pystr" where
  "keep_text call text = text"

definition space_split :: "pystr \<Rightarrow> pystr list" where
  "space_split text = split_on 32 text"

definition space_tokenize :: "pystr \<Rightarrow> pystr list option" where
  "space_tokenize text = Some (space_split text)"

definition one_second_per_char :: "pystr \<Rightarrow> error + nat \<times> nat" where
  "one_second_per_char text = Inr (22050 * length text, 22050)"

subsection \<open>Notions used to state the properties of the generator\<close>

text \<open>
  \<open>starts_from t slides\<close>: every slide with narration starts where the durations before it
  end, counted from \<open>t\<close>.
\<close>

fun starts_from :: "real \<Rightarrow> SlideContent list \<Rightarrow> bool" where
  "starts_from t [] = True"
| "starts_from t (s # r) =
     ((strip (narration_text s) = [] \<or> start_time s = t) \<and> starts_from (t + duration s) r)"

section \<open>Properties of the re-binner\<close>

lemma truediv_nonneg: "truediv (real n) (real sr) = Inr d \<Longrightarrow> 0 \<le> d"
  by (auto simp: truediv_def split: if_splits)

lemma set_update_subset: "set (AList.update k v al) \<subseteq> insert (k, v) (set al)"
  by (induction al) auto

lemma durations_loop_wellformed:
  "durations_loop files durs = Inr out \<Longrightarrow> distinct (map fst durs) \<Longrightarrow>
   \<forall>p\<in>set durs. 0 \<le> snd p \<Longrightarrow>
   distinct (map fst out) \<and> (\<forall>p\<in>set out. 0 \<le> snd p)"
proof (induction files arbitrary: durs)
  case Nil
  then show ?case by simp
next
  case (Cons f files)
  obtain k n sr where f: "f = (k, n, sr)" by (cases f)
  obtain d where d: "truediv (real n) (real sr) = Inr d"
    and run: "durations_loop files (AList.update k d durs) = Inr out"
    using Cons.prems(1) f by (auto split: sum.splits)
  have "0 \<le> d" using d by (rule truediv_nonneg)
  then have "\<forall>p\<in>set (AList.update k d durs). 0 \<le> snd p"
    using Cons.prems(3) set_update_subset [of k d durs] by auto
  moreover have "distinct (map fst (AList.update k d durs))"
    using Cons.prems(2) by (simp add: distinct_update)
  ultimately show ?case using Cons.IH [OF run] by blast
qed

lemma get_audio_durations_wellformed:
  "get_audio_durations files = Inr durs \<Longrightarrow>
   distinct (map fst durs) \<and> (\<forall>p\<in>set durs. 0 \<le> snd p)"
  unfolding get_audio_durations_def using durations_loop_wellformed [of files "[]" durs] by simp

lemma get_audio_durations_example:
  "get_audio_durations [(1, 66150, 22050), (10, 44100, 22050), (2, 88200, 22050)] =
     Inr [(1, 3), (10, 2), (2, 4)]"
  by (simp add: get_audio_durations_def truediv_def)

lemma update_new: "k \<notin> fst ` set al \<Longrightarrow> AList.update k v al = al @ [(k, v)]"
  by (induction al) auto

lemma map_fst_boundaries_from: "map fst (boundaries_from t xs) = map fst xs"
  by (induction t xs rule: boundaries_from.induct) auto

lemma boundaries_loop_eq:
  "distinct (map fst xs) \<Longrightarrow> fst ` set xs \<inter> fst ` set sb = {} \<Longrightarrow>
   \<forall>p\<in>set xs. map_of durs (fst p) = Some (snd p) \<Longrightarrow>
   boundaries_loop durs (map fst xs) t sb = Inr (sb @ boundaries_from t xs)"
proof (induction xs arbitrary: t sb)
  case Nil
  then show ?case by simp
next
  case (Cons p xs)
  obtain k d where p: "p = (k, d)" by (cases p)
  have knew: "k \<notin> fst ` set sb" using Cons.prems(2) p by auto
  have get: "dict_get durs k = Inr d" using Cons.prems(3) p by (simp add: dict_get_def)
  let ?sb = "sb @ [(k, \<lparr>b_start = t, b_end = t + d\<rparr>)]"
  have "boundaries_loop durs (map fst xs) (t + d) ?sb = Inr (?sb @ boundaries_from (t + d) xs)"
  proof (rule Cons.IH)
    show "distinct (map fst xs)" using Cons.prems(1) by simp
    show "fst ` set xs \<inter> fst ` set ?sb = {}" using Cons.prems(1,2) p by auto
    show "\<forall>p\<in>set xs. map_of durs (fst p) = Some (snd p)" using Cons.prems(3) by simp
  qed
  then show ?case using p get knew by (simp add: update_new)
qed

lemma map_insort_key: "map f (insort_key f x xs) = insort (f x) (map f xs)"
  by (induction xs) auto

lemma map_fst_sort_key: "map f (sort_key f xs) = sort (map f xs)"
  by (induction xs) (auto simp: map_insort_key)

lemma slide_boundaries_eq:
  assumes "distinct (map fst durs)"
  shows "slide_boundaries durs = Inr (boundaries_from 0 (sort_key fst durs))"
proof -
  have d: "distinct (map fst (sort_key fst durs))"
    using assms by (simp add: map_fst_sort_key)
  have m: "\<forall>p\<in>set (sort_key fst durs). map_of durs (fst p) = Some (snd p)"
    using assms by simp
  show ?thesis
    unfolding slide_boundaries_def map_fst_sort_key [symmetric]
    using boundaries_loop_eq [OF d _ m, of "[]" 0] by simp
qed

lemma boundaries_from_lookup:
  "sorted (map fst xs) \<Longrightarrow> distinct (map fst xs) \<Longrightarrow> (n, d) \<in> set xs \<Longrightarrow>
   map_of (boundaries_from t xs) n =
     Some \<lparr>b_start = t + sum_list (map snd (filter (\<lambda>p. fst p < n) xs)),
           b_end = t + sum_list (map snd (filter (\<lambda>p. fst p < n) xs)) + d\<rparr>"
proof (induction xs arbitrary: t)
  case Nil
  then show ?case by simp
next
  case (Cons p xs)
  obtain k e where p: "p = (k, e)" by (cases p)
  show ?case
  proof (cases "k = n")
    case True
    then have "e = d" using Cons.prems p by (auto simp: rev_image_eqI)
    moreover have "filter (\<lambda>p. fst p < n) xs = []"
      using Cons.prems(1) True p by (auto simp: filter_empty_conv)
    ultimately show ?thesis using True p by simp
  next
    case False
    then have mem: "(n, d) \<in> set xs" using Cons.prems(3) p by auto
    then have "k \<le> n" using Cons.prems(1) p by force
    then have lt: "k < n" using False by simp
    have "map_of (boundaries_from (t + e) xs) n =
      Some \<lparr>b_start = t + e + sum_list (map snd (filter (\<lambda>p. fst p < n) xs)),
           b_end = t + e + sum_list (map snd (filter (\<lambda>p. fst p < n) xs)) + d\<rparr>"
      using Cons.IH [of "t + e"] Cons.prems mem by simp
    then show ?thesis using p False lt by (simp add: algebra_simps)
  qed
qed

lemma sum_filter_sort_key:
  "sum_list (map snd (filter P (sort_key f xs))) = sum_list (map (snd :: _ \<Rightarrow> real) (filter P xs))"
proof -
  have "mset (filter P (sort_key f xs)) = mset (filter P xs)" by simp
  then have "mset (map snd (filter P (sort_key f xs))) = mset (map snd (filter P xs))"
    by (metis mset_map)
  then show ?thesis by (metis sum_mset_sum_list)
qed

lemma boundaries_from_adjacent:
  "Suc i < length xs \<Longrightarrow>
   b_end (snd (boundaries_from t xs ! i)) = b_start (snd (boundaries_from t xs ! Suc i))"
proof (induction t xs arbitrary: i rule: boundaries_from.induct)
  case (1 t)
  then show ?case by simp
next
  case (2 t k d r)
  show ?case
  proof (cases i)
    case 0
    then show ?thesis using 2 by (cases r) auto
  next
    case (Suc j)
    then show ?thesis using 2 by simp
  qed
qed

lemma boundaries_from_first: "xs \<noteq> [] \<Longrightarrow> b_start (snd (hd (boundaries_from t xs))) = t"
  by (cases xs) auto

lemma boundaries_from_last:
  "xs \<noteq> [] \<Longrightarrow> b_end (snd (last (boundaries_from t xs))) = t + sum_list (map snd xs)"
proof (induction t xs rule: boundaries_from.induct)
  case (1 t)
  then show ?case by simp
next
  case (2 t k d r)
  then show ?case by (cases r) (auto simp: algebra_simps)
qed

lemma boundaries_loop_cong:
  "map_of durs' = map_of durs \<Longrightarrow> boundaries_loop durs' ks t sb = boundaries_loop durs ks t sb"
  by (induction ks arbitrary: t sb) (auto simp: dict_get_def split: option.splits)

lemma assign_subtitle_eq:
  "assign_subtitle sb sub by_slide =
     Inr (case slide_of sb sub of
            None \<Rightarrow> by_slide
          | Some (n, bnd) \<Rightarrow>
              AList.update n (entries_of by_slide n @ [shifted bnd sub]) by_slide)"
proof (induction sb)
  case Nil
  then show ?case by (simp add: slide_of_def)
next
  case (Cons p sb)
  obtain n bnd where p: "p = (n, bnd)" by (cases p)
  show ?case
  proof (cases "in_bounds bnd sub")
    case True
    then show ?thesis
      using p
      by (auto simp: slide_of_def in_bounds_def shifted_def entries_of_def dict_get_def
          update_conv' update_triv split: option.splits)
  next
    case False
    then show ?thesis using p Cons by (auto simp: slide_of_def in_bounds_def)
  qed
qed

lemma new_entries_Nil: "new_entries sb [] n = []"
  by (simp add: new_entries_def)

lemma new_entries_Cons:
  "new_entries sb (sub # subs) n =
     (case slide_of sb sub of
        None \<Rightarrow> []
      | Some (m, bnd) \<Rightarrow> if m = n then [shifted bnd sub] else []) @ new_entries sb subs n"
  by (simp add: new_entries_def)

lemma assign_all_lookup:
  "\<exists>out. assign_all sb subs by_slide = Inr out \<and>
     distinct (map fst out) = distinct (map fst by_slide) \<and>
     (\<forall>n. map_of out n =
        (if new_entries sb subs n = [] then map_of by_slide n
         else Some (entries_of by_slide n @ new_entries sb subs n)))"
proof (induction subs arbitrary: by_slide)
  case Nil
  then show ?case by (simp add: new_entries_Nil)
next
  case (Cons sub subs)
  show ?case
  proof (cases "slide_of sb sub")
    case None
    then show ?thesis using Cons [of by_slide]
      by (auto simp: assign_subtitle_eq new_entries_Cons)
  next
    case (Some p)
    obtain m bnd where p: "p = (m, bnd)" by (cases p)
    let ?bs = "AList.update m (entries_of by_slide m @ [shifted bnd sub]) by_slide"
    obtain out where out: "assign_all sb subs ?bs = Inr out"
      "distinct (map fst out) = distinct (map fst ?bs)"
      "\<And>n. map_of out n =
        (if new_entries sb subs n = [] then map_of ?bs n
         else Some (entries_of ?bs n @ new_entries sb subs n))"
      using Cons [of ?bs] by blast
    have 1: "assign_all sb (sub # subs) by_slide = Inr out"
      using Some p out(1) by (simp add: assign_subtitle_eq)
    have 2: "distinct (map fst out) = distinct (map fst by_slide)"
      using out(2) by (simp add: distinct_update update_keys)
    have 3: "map_of out n =
        (if new_entries sb (sub # subs) n = [] then map_of by_slide n
         else Some (entries_of by_slide n @ new_entries sb (sub # subs) n))" for n
      using out(3) [of n] Some p
      by (auto simp: new_entries_Cons entries_of_def update_conv')
    show ?thesis using 1 2 3 by blast
  qed
qed

lemma boundaries_from_range:
  "\<forall>p\<in>set xs. 0 \<le> snd p \<Longrightarrow> (k, bnd) \<in> set (boundaries_from t xs) \<Longrightarrow>
   t \<le> b_start bnd \<and> b_start bnd \<le> b_end bnd \<and> b_end bnd \<le> t + sum_list (map snd xs)"
proof (induction t xs rule: boundaries_from.induct)
  case (1 t)
  then show ?case by simp
next
  case (2 t k' d r)
  have d: "0 \<le> d" using 2(2) by simp
  have s: "0 \<le> sum_list (map snd r)" using 2(2) by (intro sum_list_nonneg) auto
  show ?case
  proof (cases "(k, bnd) = (k', \<lparr>b_start = t, b_end = t + d\<rparr>)")
    case True
    then show ?thesis using d s by auto
  next
    case False
    then have "(k, bnd) \<in> set (boundaries_from (t + d) r)" using 2(3) by auto
    then have "t + d \<le> b_start bnd \<and> b_start bnd \<le> b_end bnd \<and>
               b_end bnd \<le> t + d + sum_list (map snd r)"
      using 2(1) 2(2) by simp
    then show ?thesis using d by (simp add: algebra_simps)
  qed
qed

lemma length_boundaries_from: "length (boundaries_from t xs) = length xs"
  by (induction t xs rule: boundaries_from.induct) auto

lemma boundaries_from_ordered:
  "\<forall>p\<in>set xs. 0 \<le> snd p \<Longrightarrow> i < j \<Longrightarrow> j < length xs \<Longrightarrow>
   b_end (snd (boundaries_from t xs ! i)) \<le> b_start (snd (boundaries_from t xs ! j))"
proof (induction t xs arbitrary: i j rule: boundaries_from.induct)
  case (1 t)
  then show ?case by simp
next
  case (2 t k d r)
  obtain j' where j: "j = Suc j'" using 2(3) by (cases j) auto
  have j': "j' < length r" using 2(4) j by simp
  show ?case
  proof (cases i)
    case 0
    have "boundaries_from (t + d) r ! j' \<in> set (boundaries_from (t + d) r)"
      using j' by (simp add: length_boundaries_from)
    then have "(fst (boundaries_from (t + d) r ! j'), snd (boundaries_from (t + d) r ! j'))
                 \<in> set (boundaries_from (t + d) r)" by simp
    then have "t + d \<le> b_start (snd (boundaries_from (t + d) r ! j'))"
      using boundaries_from_range [of r _ _ "t + d"] 2(2) by fastforce
    then show ?thesis using 0 j by simp
  next
    case (Suc i')
    then show ?thesis using 2(1) [of i' j'] 2(2,3) j j' by simp
  qed
qed

lemma boundaries_loop_total:
  "set ks \<subseteq> fst ` set durs \<Longrightarrow> \<exists>sb'. boundaries_loop durs ks t sb = Inr sb'"
proof (induction ks arbitrary: t sb)
  case Nil
  then show ?case by simp
next
  case (Cons k ks)
  then obtain d where "map_of durs k = Some d"
    by (metis list.set_intros(1) map_of_eq_None_iff not_Some_eq subsetD)
  then show ?case using Cons by (simp add: dict_get_def)
qed

lemma slide_boundaries_total: "\<exists>sb. slide_boundaries durs = Inr sb"
  unfolding slide_boundaries_def by (rule boundaries_loop_total) simp

lemma slide_of_None:
  "slide_of sb sub = None \<longleftrightarrow> (\<forall>p\<in>set sb. \<not> in_bounds (snd p) sub)"
  by (auto simp: slide_of_def find_None_iff)

lemma slide_of_in_set: "slide_of sb sub = Some p \<Longrightarrow> p \<in> set sb"
  by (auto simp: slide_of_def find_Some_iff)

lemma slide_of_lookup:
  "distinct (map fst sb) \<Longrightarrow> slide_of sb sub = Some (n, bnd) \<Longrightarrow> map_of sb n = Some bnd"
  using slide_of_in_set by fastforce

lemma new_entries_filter:
  assumes "distinct (map fst sb)" and "map_of sb n = Some bnd"
  shows "new_entries sb subs n =
     map (shifted bnd) (filter (\<lambda>c. map_option fst (slide_of sb c) = Some n) subs)"
proof (induction subs)
  case Nil
  then show ?case by (simp add: new_entries_Nil)
next
  case (Cons c subs)
  show ?case
  proof (cases "slide_of sb c")
    case None
    then show ?thesis using Cons by (simp add: new_entries_Cons)
  next
    case (Some p)
    obtain m b where p: "p = (m, b)" by (cases p)
    have "m = n \<Longrightarrow> b = bnd"
      using slide_of_lookup [OF assms(1)] Some p assms(2) by fastforce
    then show ?thesis using Cons Some p by (auto simp: new_entries_Cons)
  qed
qed

lemma new_entries_empty_iff:
  "new_entries sb subs n = [] \<longleftrightarrow> (\<forall>c\<in>set subs. map_option fst (slide_of sb c) \<noteq> Some n)"
proof (induction subs)
  case Nil
  then show ?case by (simp add: new_entries_Nil)
next
  case (Cons c subs)
  then show ?case by (auto simp: new_entries_Cons split: option.splits)
qed

lemma slide_boundaries_distinct:
  "distinct (map fst durs) \<Longrightarrow> slide_boundaries durs = Inr sb \<Longrightarrow> distinct (map fst sb)"
  by (auto simp: slide_boundaries_eq map_fst_boundaries_from map_fst_sort_key)

lemma assign_all_append:
  "assign_all sb (xs @ ys) by_slide =
     (case assign_all sb xs by_slide of Inl e \<Rightarrow> Inl e | Inr out \<Rightarrow> assign_all sb ys out)"
  by (induction xs arbitrary: by_slide) (auto split: sum.splits)

lemma sort_eq_of_mset: "mset xs = mset ys \<Longrightarrow> sort xs = sort (ys :: int list)"
  by (rule properties_for_sort) simp_all

lemma slide_boundaries_permute:
  assumes "distinct (map fst durs)" and "mset durs' = mset durs"
  shows "slide_boundaries durs' = slide_boundaries durs"
proof -
  have m: "mset (map fst durs') = mset (map fst durs)" using assms(2) by (metis mset_map)
  then have d': "distinct (map fst durs')" using assms(1) by (metis mset_eq_imp_distinct_iff)
  have "set durs' = set durs" using assms(2) by (metis set_mset_mset)
  then have "map_of durs' = map_of durs" using assms(1) d' by (simp add: map_of_inject_set)
  then have "boundaries_loop durs' (sort (map fst durs')) 0 [] =
             boundaries_loop durs (sort (map fst durs')) 0 []"
    by (rule boundaries_loop_cong)
  then show ?thesis
    unfolding slide_boundaries_def using sort_eq_of_mset [OF m] by simp
qed

text \<open>
  Claim C5. For every dict of durations (distinct keys, in any insertion order) the
  boundaries are built without error, their keys are the slide numbers in ascending order,
  the boundary of slide \<open>n\<close> starts at the sum of the durations of the slides with a
  smaller number and ends one duration of \<open>n\<close> later; consecutive boundaries touch, the
  first starts at 0 and the last ends at the total duration; with non-negative durations
  an earlier boundary ends no later than a later one starts; and a dict with the same
  entries in another insertion order gives the same boundaries.
\<close>

theorem slide_boundaries_cumulative_partition:
  assumes "distinct (map fst durs)"
  shows "\<exists>sb. slide_boundaries durs = Inr sb
     \<and> map fst sb = sort (map fst durs)
     \<and> (\<forall>p\<in>set durs. map_of sb (fst p) =
           Some \<lparr>b_start = sum_list (map snd (filter (\<lambda>q. fst q < fst p) durs)),
                 b_end = sum_list (map snd (filter (\<lambda>q. fst q < fst p) durs)) + snd p\<rparr>)
     \<and> (\<forall>i. Suc i < length sb \<longrightarrow> b_end (snd (sb ! i)) = b_start (snd (sb ! Suc i)))
     \<and> (sb \<noteq> [] \<longrightarrow>
           b_start (snd (hd sb)) = 0 \<and> b_end (snd (last sb)) = sum_list (map snd durs))
     \<and> ((\<forall>p\<in>set durs. 0 \<le> snd p) \<longrightarrow>
           (\<forall>i j. i < j \<and> j < length sb \<longrightarrow>
              b_end (snd (sb ! i)) \<le> b_start (snd (sb ! j))))
     \<and> (\<forall>durs'. mset durs' = mset durs \<longrightarrow> slide_boundaries durs' = Inr sb)"
proof -
  let ?xs = "sort_key fst durs"
  let ?sb = "boundaries_from 0 ?xs"
  have sb: "slide_boundaries durs = Inr ?sb" using assms by (rule slide_boundaries_eq)
  have keys: "map fst ?sb = sort (map fst durs)"
    by (simp add: map_fst_boundaries_from map_fst_sort_key)
  have srt: "sorted (map fst ?xs)" "distinct (map fst ?xs)"
    using assms by (simp_all add: map_fst_sort_key)
  have look: "map_of ?sb (fst p) =
           Some \<lparr>b_start = sum_list (map snd (filter (\<lambda>q. fst q < fst p) durs)),
                 b_end = sum_list (map snd (filter (\<lambda>q. fst q < fst p) durs)) + snd p\<rparr>"
    if "p \<in> set durs" for p
  proof -
    have "(fst p, snd p) \<in> set ?xs" using that by simp
    then show ?thesis
      using boundaries_from_lookup [OF srt, of "fst p" "snd p" 0]
      by (simp add: sum_filter_sort_key)
  qed
  have adj: "b_end (snd (?sb ! i)) = b_start (snd (?sb ! Suc i))" if "Suc i < length ?sb" for i
    using that by (simp add: boundaries_from_adjacent length_boundaries_from)
  have ends: "b_start (snd (hd ?sb)) = 0 \<and> b_end (snd (last ?sb)) = sum_list (map snd durs)"
    if "?sb \<noteq> []"
  proof -
    have ne: "?xs \<noteq> []" using that by auto
    have "sum_list (map snd ?xs) = sum_list (map snd durs)"
      using sum_filter_sort_key [of "\<lambda>_. True" fst durs] by simp
    then show ?thesis using boundaries_from_first [OF ne, of 0] boundaries_from_last [OF ne, of 0] by simp
  qed
  have ord: "b_end (snd (?sb ! i)) \<le> b_start (snd (?sb ! j))"
    if "\<forall>p\<in>set durs. 0 \<le> snd p" "i < j" "j < length ?sb" for i j
    using that by (intro boundaries_from_ordered) (simp_all add: length_boundaries_from)
  have perm: "slide_boundaries durs' = Inr ?sb" if "mset durs' = mset durs" for durs'
    using slide_boundaries_permute [OF assms that] sb by simp
  show ?thesis
    using sb keys look adj ends ord perm by blast
qed

theorem slide_boundaries_cumulative_partition_witness:
  "get_audio_durations [(1, 66150, 22050), (10, 44100, 22050), (2, 88200, 22050)] =
     Inr [(1, 3), (10, 2), (2, 4)] \<and>
   slide_boundaries [(1, 3), (10, 2), (2, 4)] =
     Inr [(1, \<lparr>b_start = 0, b_end = 3\<rparr>), (2, \<lparr>b_start = 3, b_end = 7\<rparr>),
          (10, \<lparr>b_start = 7, b_end = 9\<rparr>)]"
proof -
  have d: "distinct (map fst [(1 :: int, 3 :: real), (10, 2), (2, 4)])" by simp
  from slide_boundaries_cumulative_partition [OF d]
  obtain sb where sb: "slide_boundaries [(1, 3), (10, 2), (2, 4)] = Inr sb"
    and keys: "map fst sb = sort (map fst [(1 :: int, 3 :: real), (10, 2), (2, 4)])"
    by (elim exE conjE)
  have "sb = [(1, \<lparr>b_start = 0, b_end = 3\<rparr>), (2, \<lparr>b_start = 3, b_end = 7\<rparr>),
          (10, \<lparr>b_start = 7, b_end = 9\<rparr>)]"
    using sb by (simp add: slide_boundaries_def dict_get_def)
  then show ?thesis using sb get_audio_durations_example by (intro conjI) simp_all
qed




lemma bounds_5_5:
  "slide_boundaries [(1, 5), (2, 5)] =
     Inr [(1, \<lparr>b_start = 0, b_end = 5\<rparr>), (2, \<lparr>b_start = 5, b_end = 10\<rparr>)]"
  by (simp add: slide_boundaries_def dict_get_def)



lemma slide_of_beyond_end:
  assumes dist: "distinct (map fst durs)"
    and nonneg: "\<forall>p\<in>set durs. 0 \<le> snd p"
    and sb: "slide_boundaries durs = Inr sb"
    and ne: "sb \<noteq> []"
    and late: "b_end (snd (last sb)) \<le> sub_start c"
  shows "slide_of sb c = None"
proof -
  let ?xs = "sort_key fst durs"
  have eq: "sb = boundaries_from 0 ?xs" using slide_boundaries_eq [OF dist] sb by simp
  have nn: "\<forall>p\<in>set ?xs. 0 \<le> snd p" using nonneg by simp
  have xne: "?xs \<noteq> []" using ne eq by auto
  have total: "b_end (snd (last sb)) = 0 + sum_list (map snd ?xs)"
    unfolding eq using xne by (rule boundaries_from_last)
  have "\<not> in_bounds (snd p) c" if "p \<in> set sb" for p
  proof -
    have "(fst p, snd p) \<in> set (boundaries_from 0 ?xs)" using that eq by simp
    then have "b_end (snd p) \<le> 0 + sum_list (map snd ?xs)"
      using boundaries_from_range [OF nn] by blast
    then show ?thesis using total late by (simp add: in_bounds_def)
  qed
  then show ?thesis by (simp add: slide_of_None)
qed

text \<open>
  Claim C3. With non-negative durations, a cue that starts at or after the end of the last
  boundary matches no boundary: the inner loop leaves the result unchanged and raises
  nothing, so the result of the whole run is the one without that cue. The durations that
  \<^verbatim>\<open>get_audio_durations\<close> returns have distinct keys and are non-negative
  (\<open>get_audio_durations_wellformed\<close>).
\<close>

theorem cue_beyond_last_boundary_is_dropped:
  assumes "distinct (map fst durs)"
    and "\<forall>p\<in>set durs. 0 \<le> snd p"
    and "slide_boundaries durs = Inr sb"
    and "sb \<noteq> []"
    and "b_end (snd (last sb)) \<le> sub_start c"
  shows "assign_subtitle sb c by_slide = Inr by_slide
     \<and> (\<exists>out. subtitles_by_slide (before @ c # after) durs = Inr out
              \<and> subtitles_by_slide (before @ after) durs = Inr out)"
proof -
  have none: "slide_of sb c = None" using assms by (rule slide_of_beyond_end)
  have one: "assign_subtitle sb c by_slide = Inr by_slide" for by_slide
    using none by (simp add: assign_subtitle_eq)
  obtain mid where mid: "assign_all sb before [] = Inr mid"
    using assign_all_lookup [of sb before "[]"] by blast
  obtain out where out: "assign_all sb after mid = Inr out"
    using assign_all_lookup [of sb after mid] by blast
  have "subtitles_by_slide (before @ c # after) durs = Inr out"
    using assms(3) mid out one by (simp add: subtitles_by_slide_def assign_all_append)
  moreover have "subtitles_by_slide (before @ after) durs = Inr out"
    using assms(3) mid out by (simp add: subtitles_by_slide_def assign_all_append)
  ultimately show ?thesis using one by blast
qed

lemma get_audio_durations_5_5:
  "get_audio_durations [(1, 110250, 22050), (2, 110250, 22050)] = Inr [(1, 5), (2, 5)]"
  by (simp add: get_audio_durations_def truediv_def)

theorem cue_beyond_last_boundary_is_dropped_witness:
  "get_audio_durations [(1, 110250, 22050), (2, 110250, 22050)] = Inr [(1, 5), (2, 5)] \<and>
   subtitles_by_slide
     [\<lparr>sub_start = 1, sub_end = 2, sub_text = []\<rparr>, \<lparr>sub_start = 11, sub_end = 12, sub_text = []\<rparr>]
     [(1, 5), (2, 5)] =
   Inr [(1, [\<lparr>sub_start = 1, sub_end = 2, sub_text = []\<rparr>])]"
proof -
  let ?sb = "[(1 :: int, \<lparr>b_start = 0, b_end = 5\<rparr>), (2, \<lparr>b_start = 5, b_end = 10\<rparr>)]"
  let ?a = "\<lparr>sub_start = 1, sub_end = 2, sub_text = []\<rparr>"
  let ?c = "\<lparr>sub_start = 11, sub_end = 12, sub_text = []\<rparr>"
  have wf: "distinct (map fst [(1 :: int, 5 :: real), (2, 5)]) \<and>
      (\<forall>p\<in>set [(1 :: int, 5 :: real), (2, 5)]. 0 \<le> snd p)"
    using get_audio_durations_5_5 by (rule get_audio_durations_wellformed)
  have 1: "distinct (map fst [(1 :: int, 5 :: real), (2, 5)])" using wf by (rule conjunct1)
  have 2: "\<forall>p\<in>set [(1 :: int, 5 :: real), (2, 5)]. 0 \<le> snd p" using wf by (rule conjunct2)
  have 4: "?sb \<noteq> []" by simp
  have 5: "b_end (snd (last ?sb)) \<le> sub_start ?c" by simp
  from cue_beyond_last_boundary_is_dropped [OF 1 2 bounds_5_5 4 5, of "[]" "[?a]" "[]"]
  obtain out where out:
    "subtitles_by_slide ([?a] @ ?c # []) [(1, 5), (2, 5)] = Inr out"
    "subtitles_by_slide ([?a] @ []) [(1, 5), (2, 5)] = Inr out"
    by (elim conjE exE)
  have "subtitles_by_slide [?a] [(1, 5), (2, 5)] = Inr [(1, [?a])]"
    by (simp add: subtitles_by_slide_def bounds_5_5 dict_get_def)
  then show ?thesis using out get_audio_durations_5_5 by simp
qed

lemma subtitles_by_slide_lookup:
  assumes "slide_boundaries durs = Inr sb"
  shows "\<exists>out. subtitles_by_slide subs durs = Inr out \<and> distinct (map fst out) \<and>
           (\<forall>n. map_of out n =
              (if new_entries sb subs n = [] then None else Some (new_entries sb subs n)))"
proof -
  have e: "entries_of [] n = []" for n by (simp add: entries_of_def)
  obtain out where out: "assign_all sb subs [] = Inr out" "distinct (map fst out)"
    "\<And>n. map_of out n =
        (if new_entries sb subs n = [] then None else Some (new_entries sb subs n))"
    using assign_all_lookup [of sb subs "[]"] by (auto simp: e)
  have "subtitles_by_slide subs durs = Inr out"
    using assms out(1) by (simp add: subtitles_by_slide_def)
  then show ?thesis using out(2,3) by blast
qed

text \<open>
  Claim C4. The list under slide \<open>n\<close> is the list of the cues assigned to \<open>n\<close>, in the
  order of \<^verbatim>\<open>all_subtitles\<close>, each with start and end moved by the start of the boundary of
  \<open>n\<close> and its text unchanged.
\<close>

theorem assigned_cues_are_shifted_in_encounter_order:
  assumes "distinct (map fst durs)"
  shows "\<exists>sb out. slide_boundaries durs = Inr sb \<and> subtitles_by_slide subs durs = Inr out \<and>
     (\<forall>n. map_of sb n = None \<longrightarrow> map_of out n = None) \<and>
     (\<forall>n bnd. map_of sb n = Some bnd \<longrightarrow>
        map_of out n =
          (if filter (\<lambda>c. map_option fst (slide_of sb c) = Some n) subs = [] then None
           else Some (map (\<lambda>c. \<lparr>sub_start = sub_start c - b_start bnd,
                                    sub_end = sub_end c - b_start bnd,
                                    sub_text = sub_text c\<rparr>)
                       (filter (\<lambda>c. map_option fst (slide_of sb c) = Some n) subs))))"
proof -
  obtain sb where sb: "slide_boundaries durs = Inr sb"
    using slide_boundaries_total by blast
  have dsb: "distinct (map fst sb)" using assms sb by (rule slide_boundaries_distinct)
  obtain out where out: "subtitles_by_slide subs durs = Inr out"
    and look: "\<And>n. map_of out n =
              (if new_entries sb subs n = [] then None else Some (new_entries sb subs n))"
    using subtitles_by_slide_lookup [OF sb, of subs] by blast
  have absent: "map_of out n = None" if "map_of sb n = None" for n
  proof -
    have "map_option fst (slide_of sb c) \<noteq> Some n" for c
    proof
      assume "map_option fst (slide_of sb c) = Some n"
      then obtain bnd where "slide_of sb c = Some (n, bnd)" by auto
      then have "map_of sb n = Some bnd" using dsb by (simp add: slide_of_lookup)
      then show False using that by simp
    qed
    then have "new_entries sb subs n = []" by (simp add: new_entries_empty_iff)
    then show ?thesis using look [of n] by simp
  qed
  have present: "map_of out n =
          (if filter (\<lambda>c. map_option fst (slide_of sb c) = Some n) subs = [] then None
           else Some (map (\<lambda>c. \<lparr>sub_start = sub_start c - b_start bnd,
                                    sub_end = sub_end c - b_start bnd,
                                    sub_text = sub_text c\<rparr>)
                       (filter (\<lambda>c. map_option fst (slide_of sb c) = Some n) subs)))"
    if "map_of sb n = Some bnd" for n bnd
  proof -
    have sh: "shifted bnd = (\<lambda>c. \<lparr>sub_start = sub_start c - b_start bnd,
                                    sub_end = sub_end c - b_start bnd,
                                    sub_text = sub_text c\<rparr>)"
      by (rule ext) (simp add: shifted_def)
    have "new_entries sb subs n =
        map (shifted bnd) (filter (\<lambda>c. map_option fst (slide_of sb c) = Some n) subs)"
      using dsb that by (rule new_entries_filter)
    then show ?thesis using look [of n] unfolding sh by simp
  qed
  show ?thesis using sb out absent present by blast
qed

theorem assigned_cues_are_shifted_in_encounter_order_witness:
  "distinct (map fst [(1 :: int, 5 :: real), (2, 5)]) \<and>
   subtitles_by_slide
     [\<lparr>sub_start = 7.5, sub_end = 8.2, sub_text = lit ''x''\<rparr>,
      \<lparr>sub_start = 1, sub_end = 2, sub_text = lit ''y''\<rparr>,
      \<lparr>sub_start = 6, sub_end = 7, sub_text = lit ''z''\<rparr>]
     [(1, 5), (2, 5)] =
   Inr [(2, [\<lparr>sub_start = 2.5, sub_end = 3.2, sub_text = lit ''x''\<rparr>,
             \<lparr>sub_start = 1, sub_end = 2, sub_text = lit ''z''\<rparr>]),
        (1, [\<lparr>sub_start = 1, sub_end = 2, sub_text = lit ''y''\<rparr>])]"
proof -
  let ?subs = "[\<lparr>sub_start = 7.5, sub_end = 8.2, sub_text = lit ''x''\<rparr>,
      \<lparr>sub_start = 1, sub_end = 2, sub_text = lit ''y''\<rparr>,
      \<lparr>sub_start = 6, sub_end = 7, sub_text = lit ''z''\<rparr>]"
  have d: "distinct (map fst [(1 :: int, 5 :: real), (2, 5)])" by simp
  from assigned_cues_are_shifted_in_encounter_order [OF d, of ?subs]
  obtain out where out: "subtitles_by_slide ?subs [(1, 5), (2, 5)] = Inr out"
    by (elim exE conjE)
  have "out = [(2, [\<lparr>sub_start = 2.5, sub_end = 3.2, sub_text = lit ''x''\<rparr>,
             \<lparr>sub_start = 1, sub_end = 2, sub_text = lit ''z''\<rparr>]),
        (1, [\<lparr>sub_start = 1, sub_end = 2, sub_text = lit ''y''\<rparr>])]"
    using out by (simp add: subtitles_by_slide_def bounds_5_5 dict_get_def)
  then show ?thesis using d out by (intro conjI) simp_all
qed

text \<open>
  Claim C9. The result has a key for slide \<open>n\<close> exactly when some cue is assigned to
  \<open>n\<close>; no key holds an empty list, and no error is raised.
\<close>

theorem output_keys_are_slides_with_cues:
  assumes "distinct (map fst durs)"
  shows "\<exists>sb out. slide_boundaries durs = Inr sb \<and> subtitles_by_slide subs durs = Inr out \<and>
     distinct (map fst out) \<and>
     (\<forall>n. (n \<in> fst ` set out) = (\<exists>c\<in>set subs. map_option fst (slide_of sb c) = Some n)) \<and>
     (\<forall>n es. (n, es) \<in> set out \<longrightarrow> es \<noteq> [])"
proof -
  obtain sb where sb: "slide_boundaries durs = Inr sb"
    using slide_boundaries_total by blast
  obtain out where out: "subtitles_by_slide subs durs = Inr out"
    and dout: "distinct (map fst out)"
    and look: "\<And>n. map_of out n =
              (if new_entries sb subs n = [] then None else Some (new_entries sb subs n))"
    using subtitles_by_slide_lookup [OF sb, of subs] by blast
  have keys: "(n \<in> fst ` set out) = (\<exists>c\<in>set subs. map_option fst (slide_of sb c) = Some n)"
    for n
  proof -
    have "(n \<in> fst ` set out) = (map_of out n \<noteq> None)" by (simp add: map_of_eq_None_iff)
    also have "\<dots> = (new_entries sb subs n \<noteq> [])" using look [of n] by simp
    also have "\<dots> = (\<exists>c\<in>set subs. map_option fst (slide_of sb c) = Some n)"
      by (simp add: new_entries_empty_iff)
    finally show ?thesis .
  qed
  have vals: "es \<noteq> []" if "(n, es) \<in> set out" for n es
  proof -
    have "map_of out n = Some es" using that dout by simp
    then show ?thesis using look [of n] by (auto split: if_splits)
  qed
  show ?thesis using sb out dout keys vals by blast
qed

theorem output_keys_are_slides_with_cues_witness:
  "distinct (map fst [(1 :: int, 3 :: real), (2, 4), (3, 2)]) \<and>
   subtitles_by_slide
     [\<lparr>sub_start = 0, sub_end = 1, sub_text = lit ''A''\<rparr>,
      \<lparr>sub_start = 3.5, sub_end = 4, sub_text = lit ''B''\<rparr>,
      \<lparr>sub_start = 9.5, sub_end = 10, sub_text = lit ''D''\<rparr>]
     [(1, 3), (2, 4), (3, 2)] =
   Inr [(1, [\<lparr>sub_start = 0, sub_end = 1, sub_text = lit ''A''\<rparr>]),
        (2, [\<lparr>sub_start = 0.5, sub_end = 1, sub_text = lit ''B''\<rparr>])]"
proof -
  let ?subs = "[\<lparr>sub_start = 0, sub_end = 1, sub_text = lit ''A''\<rparr>,
      \<lparr>sub_start = 3.5, sub_end = 4, sub_text = lit ''B''\<rparr>,
      \<lparr>sub_start = 9.5, sub_end = 10, sub_text = lit ''D''\<rparr>]"
  have d: "distinct (map fst [(1 :: int, 3 :: real), (2, 4), (3, 2)])" by simp
  from output_keys_are_slides_with_cues [OF d, of ?subs]
  obtain out where out: "subtitles_by_slide ?subs [(1, 3), (2, 4), (3, 2)] = Inr out"
    by (elim exE conjE)
  have "out = [(1, [\<lparr>sub_start = 0, sub_end = 1, sub_text = lit ''A''\<rparr>]),
        (2, [\<lparr>sub_start = 0.5, sub_end = 1, sub_text = lit ''B''\<rparr>])]"
    using out by (simp add: subtitles_by_slide_def slide_boundaries_def dict_get_def)
  then show ?thesis using d out by (intro conjI) simp_all
qed

lemma rebinner_empty_input:
  "subtitles_by_slide subs [] = Inr [] \<and> subtitles_by_slide [] durs = Inr []"
proof -
  obtain sb where "slide_boundaries durs = Inr sb" using slide_boundaries_total by blast
  then have "subtitles_by_slide [] durs = Inr []" by (simp add: subtitles_by_slide_def)
  moreover have "assign_all [] subs by_slide = Inr by_slide" for by_slide
    by (induction subs) simp_all
  then have "subtitles_by_slide subs [] = Inr []"
    by (simp add: subtitles_by_slide_def slide_boundaries_def)
  ultimately show ?thesis by simp
qed

lemma parse_srt_file_eq:
  "parse_srt_file split_blocks timing content durs =
     subtitles_by_slide (parse_blocks timing (split_blocks (strip content)) []) durs"
  by (simp add: parse_srt_file_def subtitles_by_slide_def)

section \<open>Properties of the generator\<close>

lemma dropWhile_id: "xs = [] \<or> \<not> P (hd xs) \<Longrightarrow> dropWhile P xs = xs"
  by (cases xs) auto

lemma dropWhile_hd: "dropWhile P xs = [] \<or> \<not> P (hd (dropWhile P xs))"
  by (induction xs) auto

lemma last_dropWhile: "dropWhile P xs \<noteq> [] \<Longrightarrow> last (dropWhile P xs) = last xs"
  by (induction xs) (auto split: if_splits)

lemma strip_strip: "strip (strip s) = strip s"
proof -
  define t where "t = dropWhile isspace s"
  define u where "u = dropWhile isspace (rev t)"
  have s: "strip s = rev u" by (simp add: strip_def t_def u_def)
  have t: "t = [] \<or> \<not> isspace (hd t)" unfolding t_def by (rule dropWhile_hd)
  have u: "u = [] \<or> \<not> isspace (hd u)" unfolding u_def by (rule dropWhile_hd)
  have "rev u = [] \<or> \<not> isspace (hd (rev u))"
  proof (cases "u = []")
    case True
    then show ?thesis by simp
  next
    case False
    then have "last u = last (rev t)" unfolding u_def by (rule last_dropWhile)
    moreover have "rev t \<noteq> []" using False u_def by auto
    ultimately have "last u = hd t" by (simp add: last_rev)
    moreover have "t \<noteq> []" using \<open>rev t \<noteq> []\<close> by simp
    ultimately show ?thesis using t False by (simp add: hd_rev)
  qed
  then have 1: "dropWhile isspace (rev u) = rev u" by (rule dropWhile_id)
  have 2: "dropWhile isspace u = u" using u by (rule dropWhile_id)
  show ?thesis unfolding s by (simp add: strip_def 1 2)
qed

lemma split_into_sentences_stripped:
  "sent \<in> set (split_into_sentences sent_tokenize re_split t) \<Longrightarrow> strip sent = sent"
  by (auto simp: split_into_sentences_def strip_strip)

lemma end_punctuation_last:
  "end_punctuation text \<noteq> [] \<Longrightarrow> last (end_punctuation text) \<in> set (lit ''.!?'')"
  by (auto simp: end_punctuation_def Let_def lit_def split: if_splits)

lemma clean_for_tts_eq:
  "clean_for_tts re_sub text = [] \<or> (\<exists>t. clean_for_tts re_sub text = end_punctuation t)"
  unfolding clean_for_tts_def Let_def by (cases "text = []") auto

lemma clean_for_tts_gen_eq:
  "clean_for_tts_gen re_sub text = [] \<or> (\<exists>t. clean_for_tts_gen re_sub text = end_punctuation t)"
  unfolding clean_for_tts_gen_def Let_def by (cases "text = []") auto

lemma load_slides_content_narration:
  "slide \<in> set (load_slides_content re_sub entries) \<Longrightarrow>
   \<exists>t. narration_text slide = clean_for_tts re_sub t"
  unfolding load_slides_content_def Let_def
  by (auto simp: case_prod_beta)

lemma load_slides_content_gen_narration:
  "slide \<in> set (load_slides_content_gen re_sub entries) \<Longrightarrow>
   \<exists>t. narration_text slide = clean_for_tts_gen re_sub t"
  unfolding load_slides_content_gen_def Let_def
  by (auto simp: case_prod_beta)

lemma load_slides_content_fresh:
  "s \<in> set (load_slides_content re_sub entries) \<Longrightarrow> duration s = 0 \<and> start_time s = 0"
  unfolding load_slides_content_def Let_def by (auto simp: case_prod_beta)

lemma load_slides_content_gen_fresh:
  "s \<in> set (load_slides_content_gen re_sub entries) \<Longrightarrow> duration s = 0 \<and> start_time s = 0"
  unfolding load_slides_content_gen_def Let_def by (auto simp: case_prod_beta)

text \<open>
  Claim C10. Whatever the regular expressions compute, a non-empty result of
  \<^verbatim>\<open>clean_for_tts\<close>, in both versions, ends in one of \<^verbatim>\<open>. ! ?\<close>; so does every non-empty
  narration text of a loaded slide.
\<close>

theorem clean_for_tts_ends_sentence:
  "(clean_for_tts re_sub text \<noteq> [] \<longrightarrow>
      last (clean_for_tts re_sub text) \<in> set (lit ''.!?'')) \<and>
   (clean_for_tts_gen re_sub text \<noteq> [] \<longrightarrow>
      last (clean_for_tts_gen re_sub text) \<in> set (lit ''.!?'')) \<and>
   (\<forall>slide\<in>set (load_slides_content re_sub entries).
      narration_text slide \<noteq> [] \<longrightarrow> last (narration_text slide) \<in> set (lit ''.!?'')) \<and>
   (\<forall>slide\<in>set (load_slides_content_gen re_sub entries).
      narration_text slide \<noteq> [] \<longrightarrow> last (narration_text slide) \<in> set (lit ''.!?''))"
proof -
  have a: "clean_for_tts re_sub t \<noteq> [] \<longrightarrow> last (clean_for_tts re_sub t) \<in> set (lit ''.!?'')"
    for t
    using clean_for_tts_eq [of re_sub t] end_punctuation_last by metis
  have b: "clean_for_tts_gen re_sub t \<noteq> [] \<longrightarrow>
      last (clean_for_tts_gen re_sub t) \<in> set (lit ''.!?'')" for t
    using clean_for_tts_gen_eq [of re_sub t] end_punctuation_last by metis
  have c: "narration_text slide \<noteq> [] \<longrightarrow> last (narration_text slide) \<in> set (lit ''.!?'')"
    if mem: "slide \<in> set (load_slides_content re_sub entries)" for slide
  proof -
    obtain t where "narration_text slide = clean_for_tts re_sub t"
      using load_slides_content_narration [OF mem] by blast
    then show ?thesis using a by simp
  qed
  have d: "narration_text slide \<noteq> [] \<longrightarrow> last (narration_text slide) \<in> set (lit ''.!?'')"
    if mem: "slide \<in> set (load_slides_content_gen re_sub entries)" for slide
  proof -
    obtain t where "narration_text slide = clean_for_tts_gen re_sub t"
      using load_slides_content_gen_narration [OF mem] by blast
    then show ?thesis using b by simp
  qed
  show ?thesis using a b c d by blast
qed

lemma strip_Hi: "strip [72, 105] = [72, 105]"
  by (simp add: strip_def isspace_def)

lemma split_on_Hi: "split_on 10 [72, 105] = [[72, 105]]"
  by simp

lemma join_lines_Hi: "join_lines [[72, 105]] [] = [[72, 105]]"
  by (simp add: strip_def isspace_def)

lemma expand_Hi: "expand abbreviations [72, 105] = [72, 105]"
  by (simp add: expand_def abbreviations_def replace.simps lit_def)

lemma end_punctuation_Hi: "end_punctuation [72, 105] = [72, 105, 46]"
  by (simp add: end_punctuation_def strip_def isspace_def lit_def)

lemma replace_dash_Hi: "replace [8212] (lit '', '') [72, 105] = [72, 105]"
  "replace [8211] (lit '', '') [72, 105] = [72, 105]"
  "replace (lit '' - '') (lit '', '') [72, 105] = [72, 105]"
  by (simp_all add: replace.simps lit_def)

lemma join_Hi: "join sep [[72, 105]] = [72, 105]"
  by simp

lemma clean_hi: "clean_for_tts keep_text (lit ''Hi'') = lit ''Hi.''"
proof -
  have "clean_for_tts keep_text [72, 105] = [72, 105, 46]"
    unfolding clean_for_tts_def keep_text_def Let_def
    by (simp add: Let_def strip_Hi split_on_Hi join_lines_Hi expand_Hi end_punctuation_Hi
        replace_dash_Hi join_Hi)
  then show ?thesis by (simp add: lit_def)
qed

lemma clean_gen_hi: "clean_for_tts_gen keep_text (lit ''Hi'') = lit ''Hi.''"
proof -
  have "expand abbreviations_gen [72, 105] = [72, 105]"
    by (simp add: expand_def abbreviations_gen_def abbreviations_def replace.simps lit_def)
  then have "clean_for_tts_gen keep_text [72, 105] = [72, 105, 46]"
    unfolding clean_for_tts_gen_def keep_text_def Let_def
    by (simp add: Let_def strip_Hi split_on_Hi join_lines_Hi end_punctuation_Hi
        replace_dash_Hi join_Hi)
  then show ?thesis by (simp add: lit_def)
qed

lemma audio_loop_inv:
  "audio_loop tts rest t files visited = Inr (files', out) \<Longrightarrow>
   \<forall>s\<in>set rest. strip (narration_text s) = [] \<longrightarrow> duration s = 0 \<Longrightarrow>
   \<exists>new. out = visited @ new \<and> starts_from t new \<and>
     list_all2 (\<lambda>s s'. narration_text s' = narration_text s \<and>
                       slide_number s' = slide_number s \<and>
                       (strip (narration_text s) = [] \<longrightarrow> s' = s)) rest new"
proof (induction rest arbitrary: t files visited)
  case Nil
  then show ?case by simp
next
  case (Cons slide rest)
  show ?case
  proof (cases "strip (narration_text slide) = []")
    case True
    have d: "duration slide = 0" using Cons.prems(2) True by simp
    have run: "audio_loop tts rest t files (visited @ [slide]) = Inr (files', out)"
      using Cons.prems(1) True by simp
    obtain new where new: "out = (visited @ [slide]) @ new" "starts_from t new"
      "list_all2 (\<lambda>s s'. narration_text s' = narration_text s \<and>
                       slide_number s' = slide_number s \<and>
                       (strip (narration_text s) = [] \<longrightarrow> s' = s)) rest new"
      using Cons.IH [OF run] Cons.prems(2) by auto
    have "out = visited @ (slide # new)" using new(1) by simp
    moreover have "starts_from t (slide # new)" using new(2) True d by simp
    moreover have "list_all2 (\<lambda>s s'. narration_text s' = narration_text s \<and>
                       slide_number s' = slide_number s \<and>
                       (strip (narration_text s) = [] \<longrightarrow> s' = s)) (slide # rest) (slide # new)"
      using new(3) by simp
    ultimately show ?thesis by blast
  next
    case False
    obtain n sr d where tts: "tts (narration_text slide) = Inr (n, sr)"
      and div: "truediv (real n) (real sr) = Inr d"
      and run: "audio_loop tts rest (t + d) (files @ [slide_number slide])
                  (visited @ [slide\<lparr>duration := d, start_time := t\<rparr>]) = Inr (files', out)"
      using Cons.prems(1) False by (auto split: sum.splits)
    let ?s = "slide\<lparr>duration := d, start_time := t\<rparr>"
    obtain new where new: "out = (visited @ [?s]) @ new" "starts_from (t + d) new"
      "list_all2 (\<lambda>s s'. narration_text s' = narration_text s \<and>
                       slide_number s' = slide_number s \<and>
                       (strip (narration_text s) = [] \<longrightarrow> s' = s)) rest new"
      using Cons.IH [OF run] Cons.prems(2) by auto
    have "out = visited @ (?s # new)" using new(1) by simp
    moreover have "starts_from t (?s # new)" using new(2) by simp
    moreover have "list_all2 (\<lambda>s s'. narration_text s' = narration_text s \<and>
                       slide_number s' = slide_number s \<and>
                       (strip (narration_text s) = [] \<longrightarrow> s' = s)) (slide # rest) (?s # new)"
      using new(3) False by simp
    ultimately show ?thesis by blast
  qed
qed

lemma starts_from_nth:
  "starts_from t xs \<Longrightarrow> i < length xs \<Longrightarrow> strip (narration_text (xs ! i)) \<noteq> [] \<Longrightarrow>
   start_time (xs ! i) = t + sum_list (map duration (take i xs))"
proof (induction xs arbitrary: t i)
  case Nil
  then show ?case by simp
next
  case (Cons s xs)
  show ?case
  proof (cases i)
    case 0
    then show ?thesis using Cons.prems by simp
  next
    case (Suc j)
    then have "start_time (xs ! j) = t + duration s + sum_list (map duration (take j xs))"
      using Cons.IH [of "t + duration s" j] Cons.prems by simp
    then show ?thesis using Suc by simp
  qed
qed

text \<open>
  Claim C6, as amended. When the audio generation returns, every slide with narration
  starts at the sum of the durations of the slides before it; a slide whose narration is
  blank is skipped and left as it was. The hypothesis that a slide without narration has
  duration 0 holds for the slides that \<^verbatim>\<open>load_slides_content\<close> returns
  (\<open>load_slides_content_fresh\<close>, \<open>load_slides_content_gen_fresh\<close>). The speech engine \<open>tts\<close>
  is any function: \<open>tts_to_wav engine\<close> in \<^verbatim>\<open>lecture_generator.py\<close>, the engine itself in
  \<^verbatim>\<open>lecture_gen.py\<close>.
\<close>

theorem start_time_is_sum_of_earlier_durations:
  assumes "generate_audio_segments tts slides = Inr (audio_files, slides')"
    and "\<forall>s\<in>set slides. strip (narration_text s) = [] \<longrightarrow> duration s = 0"
  shows "length slides' = length slides \<and>
    (\<forall>i<length slides.
       narration_text (slides' ! i) = narration_text (slides ! i) \<and>
       (strip (narration_text (slides ! i)) \<noteq> [] \<longrightarrow>
          start_time (slides' ! i) = sum_list (map duration (take i slides'))) \<and>
       (strip (narration_text (slides ! i)) = [] \<longrightarrow> slides' ! i = slides ! i))"
proof -
  obtain new where new: "slides' = [] @ new" "starts_from 0 new"
      "list_all2 (\<lambda>s s'. narration_text s' = narration_text s \<and>
                       slide_number s' = slide_number s \<and>
                       (strip (narration_text s) = [] \<longrightarrow> s' = s)) slides new"
    using audio_loop_inv [OF assms(1) [unfolded generate_audio_segments_def] assms(2)] by blast
  have eq: "slides' = new" using new(1) by simp
  have len: "length slides' = length slides"
    using new(3) eq by (simp add: list_all2_lengthD)
  have each: "narration_text (slides' ! i) = narration_text (slides ! i) \<and>
       (strip (narration_text (slides ! i)) \<noteq> [] \<longrightarrow>
          start_time (slides' ! i) = sum_list (map duration (take i slides'))) \<and>
       (strip (narration_text (slides ! i)) = [] \<longrightarrow> slides' ! i = slides ! i)"
    if i: "i < length slides" for i
  proof -
    have rel: "narration_text (slides' ! i) = narration_text (slides ! i)"
      "strip (narration_text (slides ! i)) = [] \<longrightarrow> slides' ! i = slides ! i"
      using list_all2_nthD [OF new(3) i] eq by simp_all
    have "start_time (slides' ! i) = sum_list (map duration (take i slides'))"
      if "strip (narration_text (slides ! i)) \<noteq> []"
      using starts_from_nth [of 0 slides' i] new(2) eq i len that rel(1) by simp
    then show ?thesis using rel by blast
  qed
  show ?thesis using len each by blast
qed

lemma strip_word: "strip (lit ''Hi.'') = lit ''Hi.''" "strip [] = []"
  by (simp_all add: strip_def isspace_def lit_def)

lemma clean_for_tts_empty: "clean_for_tts re_sub [] = []"
  by (simp add: clean_for_tts_def)

lemma load_three_slides:
  "load_slides_content keep_text
     [\<lparr>entry_narration_text = Some (lit ''Hi''), entry_slide_text = None,
       entry_image_path = None\<rparr>,
      \<lparr>entry_narration_text = None, entry_slide_text = None, entry_image_path = None\<rparr>,
      \<lparr>entry_narration_text = None, entry_slide_text = Some (lit ''Hi''),
       entry_image_path = None\<rparr>] =
   [\<lparr>slide_number = 1, image_path = [], narration_text = lit ''Hi.'',
       duration = 0, start_time = 0\<rparr>,
      \<lparr>slide_number = 2, image_path = [], narration_text = [],
       duration = 0, start_time = 0\<rparr>,
      \<lparr>slide_number = 3, image_path = [], narration_text = lit ''Hi.'',
       duration = 0, start_time = 0\<rparr>]"
  by (simp add: load_slides_content_def clean_hi clean_for_tts_empty)

lemma three_slides_audio:
  "generate_audio_segments one_second_per_char
     [\<lparr>slide_number = 1, image_path = [], narration_text = lit ''Hi.'',
       duration = 0, start_time = 0\<rparr>,
      \<lparr>slide_number = 2, image_path = [], narration_text = [],
       duration = 0, start_time = 0\<rparr>,
      \<lparr>slide_number = 3, image_path = [], narration_text = lit ''Hi.'',
       duration = 0, start_time = 0\<rparr>] =
   Inr ([1, 3],
     [\<lparr>slide_number = 1, image_path = [], narration_text = lit ''Hi.'',
       duration = 3, start_time = 0\<rparr>,
      \<lparr>slide_number = 2, image_path = [], narration_text = [],
       duration = 0, start_time = 0\<rparr>,
      \<lparr>slide_number = 3, image_path = [], narration_text = lit ''Hi.'',
       duration = 3, start_time = 3\<rparr>])"
proof -
  have len: "length (lit ''Hi.'') = 3" by (simp add: lit_def)
  have ne: "lit ''Hi.'' \<noteq> []" by (simp add: lit_def)
  show ?thesis
    by (simp add: generate_audio_segments_def strip_word ne one_second_per_char_def
        truediv_def len)
qed

lemma three_slides_audio_wav:
  "generate_audio_segments (tts_to_wav one_second_per_char)
     [\<lparr>slide_number = 1, image_path = [], narration_text = lit ''Hi.'',
       duration = 0, start_time = 0\<rparr>,
      \<lparr>slide_number = 2, image_path = [], narration_text = [],
       duration = 0, start_time = 0\<rparr>,
      \<lparr>slide_number = 3, image_path = [], narration_text = lit ''Hi.'',
       duration = 0, start_time = 0\<rparr>] =
   Inr ([1, 3],
     [\<lparr>slide_number = 1, image_path = [], narration_text = lit ''Hi.'',
       duration = 3, start_time = 0\<rparr>,
      \<lparr>slide_number = 2, image_path = [], narration_text = [],
       duration = 0, start_time = 0\<rparr>,
      \<lparr>slide_number = 3, image_path = [], narration_text = lit ''Hi.'',
       duration = 3, start_time = 3\<rparr>])"
proof -
  have len: "length (lit ''Hi.'') = 3" by (simp add: lit_def)
  have ne: "lit ''Hi.'' \<noteq> []" by (simp add: lit_def)
  show ?thesis
    by (simp add: generate_audio_segments_def tts_to_wav_def strip_word ne
        one_second_per_char_def truediv_def len)
qed

text \<open>
  Claim C6 as stated fails for a slide without narration: of three loaded slides, the
  second has no text; it keeps the start 0 of the dataclass, while the slide before it
  lasts 3 seconds.
\<close>

theorem slide_without_narration_keeps_start_zero:
  "generate_audio_segments one_second_per_char
     (load_slides_content keep_text
        [\<lparr>entry_narration_text = Some (lit ''Hi''), entry_slide_text = None,
       entry_image_path = None\<rparr>,
      \<lparr>entry_narration_text = None, entry_slide_text = None, entry_image_path = None\<rparr>,
      \<lparr>entry_narration_text = None, entry_slide_text = Some (lit ''Hi''),
       entry_image_path = None\<rparr>]) =
   Inr ([1, 3],
     [\<lparr>slide_number = 1, image_path = [], narration_text = lit ''Hi.'',
       duration = 3, start_time = 0\<rparr>,
      \<lparr>slide_number = 2, image_path = [], narration_text = [],
       duration = 0, start_time = 0\<rparr>,
      \<lparr>slide_number = 3, image_path = [], narration_text = lit ''Hi.'',
       duration = 3, start_time = 3\<rparr>]) \<and>
   start_time \<lparr>slide_number = 2, image_path = [], narration_text = [],
       duration = 0, start_time = 0\<rparr> \<noteq>
   duration \<lparr>slide_number = 1, image_path = [], narration_text = lit ''Hi.'',
       duration = 3, start_time = 0\<rparr>"
  using three_slides_audio by (simp add: load_three_slides)

theorem start_time_is_sum_of_earlier_durations_witness:
  "generate_audio_segments (tts_to_wav one_second_per_char)
     (load_slides_content keep_text
        [\<lparr>entry_narration_text = Some (lit ''Hi''), entry_slide_text = None,
       entry_image_path = None\<rparr>,
      \<lparr>entry_narration_text = None, entry_slide_text = None, entry_image_path = None\<rparr>,
      \<lparr>entry_narration_text = None, entry_slide_text = Some (lit ''Hi''),
       entry_image_path = None\<rparr>]) =
   Inr ([1, 3],
     [\<lparr>slide_number = 1, image_path = [], narration_text = lit ''Hi.'',
       duration = 3, start_time = 0\<rparr>,
      \<lparr>slide_number = 2, image_path = [], narration_text = [],
       duration = 0, start_time = 0\<rparr>,
      \<lparr>slide_number = 3, image_path = [], narration_text = lit ''Hi.'',
       duration = 3, start_time = 3\<rparr>]) \<and>
   start_time
     (\<lparr>slide_number = 3, image_path = [], narration_text = lit ''Hi.'',
       duration = 3, start_time = 3\<rparr>) =
   sum_list (map duration
     [\<lparr>slide_number = 1, image_path = [], narration_text = lit ''Hi.'',
       duration = 3, start_time = 0\<rparr>,
      \<lparr>slide_number = 2, image_path = [], narration_text = [],
       duration = 0, start_time = 0\<rparr>])"
proof -
  let ?slides = "[\<lparr>slide_number = 1, image_path = [], narration_text = lit ''Hi.'',
       duration = 0, start_time = 0\<rparr>,
      \<lparr>slide_number = 2, image_path = [], narration_text = [],
       duration = 0, start_time = 0\<rparr>,
      \<lparr>slide_number = 3, image_path = [], narration_text = lit ''Hi.'',
       duration = 0 :: real, start_time = 0 :: real\<rparr>]"
  have "\<forall>s\<in>set (load_slides_content keep_text
        [\<lparr>entry_narration_text = Some (lit ''Hi''), entry_slide_text = None,
          entry_image_path = None\<rparr>,
         \<lparr>entry_narration_text = None, entry_slide_text = None, entry_image_path = None\<rparr>,
         \<lparr>entry_narration_text = None, entry_slide_text = Some (lit ''Hi''),
          entry_image_path = None\<rparr>]).
      strip (narration_text s) = [] \<longrightarrow> duration s = 0"
    using load_slides_content_fresh by blast
  then have h: "\<forall>s\<in>set ?slides. strip (narration_text s) = [] \<longrightarrow> duration s = 0"
    unfolding load_three_slides .
  have i: "(2 :: nat) < length ?slides" by simp
  have ne: "strip (narration_text (?slides ! 2)) \<noteq> []"
    by (simp add: strip_word) (simp add: lit_def)
  from start_time_is_sum_of_earlier_durations [OF three_slides_audio_wav h] i ne
  have "start_time
     (\<lparr>slide_number = 3, image_path = [], narration_text = lit ''Hi.'',
       duration = 3, start_time = 3\<rparr>) =
   sum_list (map duration
     [\<lparr>slide_number = 1, image_path = [], narration_text = lit ''Hi.'',
       duration = 3, start_time = 0\<rparr>,
      \<lparr>slide_number = 2, image_path = [], narration_text = [],
       duration = 0, start_time = 0\<rparr>])"
    by (simp add: numeral_2_eq_2)
  then show ?thesis using three_slides_audio_wav by (simp add: load_three_slides)
qed

lemma slide_subtitles_total: "\<exists>segs. slide_subtitles split slide = Inr segs"
  by (simp add: slide_subtitles_def truediv_def Let_def)

lemma slide_subtitles_gen_total: "\<exists>segs. slide_subtitles_gen split slide = Inr segs"
  by (simp add: slide_subtitles_gen_def truediv_def Let_def)

lemma subtitles_loop_acc:
  "\<forall>s. \<exists>segs. body s = Inr segs \<Longrightarrow>
   \<exists>new. subtitles_loop body slides acc = Inr (acc @ new) \<and>
         subtitles_loop body slides [] = Inr new"
proof (induction slides arbitrary: acc)
  case Nil
  then show ?case by simp
next
  case (Cons s slides)
  obtain segs where segs: "body s = Inr segs" using Cons.prems by blast
  obtain n1 where n1: "subtitles_loop body slides (acc @ segs) = Inr ((acc @ segs) @ n1)"
    "subtitles_loop body slides [] = Inr n1"
    using Cons.IH [OF Cons.prems, of "acc @ segs"] by blast
  obtain n2 where n2: "subtitles_loop body slides ([] @ segs) = Inr (([] @ segs) @ n2)"
    "subtitles_loop body slides [] = Inr n2"
    using Cons.IH [OF Cons.prems, of "[] @ segs"] by blast
  have "n1 = n2" using n1(2) n2(2) by simp
  then show ?case using segs n1 n2 by simp
qed

lemma subtitles_loop_Cons:
  assumes "\<forall>s. \<exists>segs. body s = Inr segs" and "body s = Inr segs"
    and "subtitles_loop body slides [] = Inr rest"
  shows "subtitles_loop body (s # slides) [] = Inr (segs @ rest)"
proof -
  obtain new where "subtitles_loop body slides ([] @ segs) = Inr (([] @ segs) @ new)"
    "subtitles_loop body slides [] = Inr new"
    using subtitles_loop_acc [OF assms(1), of slides "[] @ segs"] by blast
  then show ?thesis using assms(2,3) by simp
qed

lemma subtitles_loop_total:
  assumes "\<forall>s. \<exists>segs. body s = Inr segs"
  shows "\<exists>out. subtitles_loop body slides [] = Inr out"
  using subtitles_loop_acc [OF assms, of slides "[]"] by auto

lemma subtitles_loop_append:
  assumes "\<forall>s. \<exists>segs. body s = Inr segs"
    and "subtitles_loop body xs [] = Inr a" and "subtitles_loop body ys [] = Inr b"
  shows "subtitles_loop body (xs @ ys) [] = Inr (a @ b)"
  using assms(2)
proof (induction xs arbitrary: a)
  case Nil
  then show ?case using assms(3) by simp
next
  case (Cons s xs)
  obtain segs where segs: "body s = Inr segs" using assms(1) by blast
  obtain r where r: "subtitles_loop body xs [] = Inr r"
    using subtitles_loop_total [OF assms(1)] by blast
  have a: "a = segs @ r"
    using subtitles_loop_Cons [OF assms(1) segs r] Cons.prems by simp
  have "subtitles_loop body (xs @ ys) [] = Inr (r @ b)" using Cons.IH [OF r] .
  then have "subtitles_loop body (s # xs @ ys) [] = Inr (segs @ r @ b)"
    using subtitles_loop_Cons [OF assms(1) segs] by blast
  then show ?case using a by simp
qed

lemma subtitles_loop_all_empty:
  "\<forall>s\<in>set slides. body s = Inr [] \<Longrightarrow> subtitles_loop body slides acc = Inr acc"
  by (induction slides arbitrary: acc) auto

lemma slide_subtitles_eq:
  assumes "strip (narration_text slide) \<noteq> []" and "duration slide \<noteq> 0"
    and "split (narration_text slide) = sentences" and "sentences \<noteq> []"
  shows "slide_subtitles split slide =
     Inr (map (\<lambda>(i, sent).
                 \<lparr>seg_text = sent,
                  seg_start_time =
                    start_time slide + real i * (duration slide / real (length sentences)),
                  seg_end_time =
                    start_time slide + (real i + 1) * (duration slide / real (length sentences))\<rparr>)
              (enumerate 0 sentences))"
  using assms by (simp add: slide_subtitles_def truediv_def Let_def)

lemma slide_subtitles_gen_eq:
  assumes "strip (narration_text slide) \<noteq> []" and "duration slide \<noteq> 0"
    and "split (narration_text slide) = sentences" and "sentences \<noteq> []"
  shows "slide_subtitles_gen split slide =
     Inr (map (\<lambda>(i, sent).
                 \<lparr>seg_text = strip sent,
                  seg_start_time =
                    start_time slide + real i * (duration slide / real (length sentences)),
                  seg_end_time =
                    start_time slide + (real i + 1) * (duration slide / real (length sentences))\<rparr>)
              (enumerate 0 sentences))"
  using assms
  by (auto simp: slide_subtitles_gen_def truediv_def Let_def distrib_right add_divide_distrib)

text \<open>
  Claim C1. A slide with narration, a duration \<open>D > 0\<close> and \<open>n > 0\<close> sentences gets \<open>n\<close>
  segments; segment \<open>i\<close> carries sentence \<open>i\<close>, starts \<open>i * (D / n)\<close> after the start of the
  slide and ends \<open>(i + 1) * (D / n)\<close> after it. Hence every segment lasts \<open>D / n\<close>, each
  segment ends where the next starts, the first starts with the slide and the last ends
  \<open>D\<close> after it. The version of \<^verbatim>\<open>lecture_gen.py\<close> gives the same times, with each sentence
  stripped once more, and in the result of a session, in \<^verbatim>\<open>generate_subtitles\<close> of either
  file, the segments of the slide stand together, after those of the slides before it and
  before those of the slides after it.
\<close>

theorem sentences_get_equal_contiguous_slices:
  assumes "strip (narration_text slide) \<noteq> []"
    and "0 < duration slide"
    and "split (narration_text slide) = sentences"
    and "sentences \<noteq> []"
  shows "\<exists>segs. slide_subtitles split slide = Inr segs \<and>
    length segs = length sentences \<and>
    (\<forall>i<length sentences.
       segs ! i =
         \<lparr>seg_text = sentences ! i,
          seg_start_time =
            start_time slide + real i * (duration slide / real (length sentences)),
          seg_end_time =
            start_time slide + real (i + 1) * (duration slide / real (length sentences))\<rparr>) \<and>
    (\<forall>i<length segs.
       seg_end_time (segs ! i) - seg_start_time (segs ! i) =
         duration slide / real (length sentences)) \<and>
    (\<forall>i. Suc i < length segs \<longrightarrow> seg_end_time (segs ! i) = seg_start_time (segs ! Suc i)) \<and>
    seg_start_time (hd segs) = start_time slide \<and>
    seg_end_time (last segs) = start_time slide + duration slide \<and>
    slide_subtitles_gen split slide = Inr (map (\<lambda>g. g\<lparr>seg_text := strip (seg_text g)\<rparr>) segs) \<and>
    ((\<forall>s\<in>set sentences. strip s = s) \<longrightarrow> slide_subtitles_gen split slide = Inr segs) \<and>
    (\<exists>earlier later.
       generate_subtitles split (before @ slide # after) = Inr (earlier @ segs @ later) \<and>
       generate_subtitles split before = Inr earlier \<and>
       generate_subtitles split after = Inr later) \<and>
    (\<exists>earlier later.
       generate_subtitles_gen split (before @ slide # after) =
         Inr (earlier @ map (\<lambda>g. g\<lparr>seg_text := strip (seg_text g)\<rparr>) segs @ later) \<and>
       generate_subtitles_gen split before = Inr earlier \<and>
       generate_subtitles_gen split after = Inr later) \<and>
    ((\<forall>s\<in>set sentences. strip s = s) \<longrightarrow>
       (\<exists>earlier later.
          generate_subtitles_gen split (before @ slide # after) =
            Inr (earlier @ segs @ later) \<and>
          generate_subtitles_gen split before = Inr earlier \<and>
          generate_subtitles_gen split after = Inr later))"
proof -
  define n where "n = length sentences"
  define dur where "dur = duration slide / real n"
  define f where "f = (\<lambda>(i, sent).
                 \<lparr>seg_text = sent,
                  seg_start_time = start_time slide + real i * dur,
                  seg_end_time = start_time slide + (real i + 1) * dur\<rparr>)"
  define segs where "segs = map f (enumerate 0 sentences)"
  have npos: "0 < n" using assms(4) by (simp add: n_def)
  have d0: "duration slide \<noteq> 0" using assms(2) by simp
  have run: "slide_subtitles split slide = Inr segs"
    using slide_subtitles_eq [where slide = slide and split = split and sentences = sentences,
        OF assms(1) d0 assms(3,4)]
    by (simp add: segs_def f_def dur_def n_def)
  have len: "length segs = n" by (simp add: segs_def n_def)
  have nth: "segs ! i = \<lparr>seg_text = sentences ! i,
          seg_start_time = start_time slide + real i * dur,
          seg_end_time = start_time slide + real (i + 1) * dur\<rparr>" if "i < n" for i
    using that by (simp add: segs_def f_def n_def nth_enumerate_eq algebra_simps)
  have width: "seg_end_time (segs ! i) - seg_start_time (segs ! i) = dur" if "i < length segs" for i
    using that nth [of i] len by (simp add: algebra_simps)
  have adj: "seg_end_time (segs ! i) = seg_start_time (segs ! Suc i)" if "Suc i < length segs" for i
    using that nth [of i] nth [of "Suc i"] len by simp
  have ne: "segs \<noteq> []" using len npos by auto
  have first: "seg_start_time (hd segs) = start_time slide"
    using nth [of 0] npos ne by (simp add: hd_conv_nth)
  have "real (n - 1 + 1) * dur = duration slide"
    using npos by (simp add: dur_def)
  then have last: "seg_end_time (last segs) = start_time slide + duration slide"
    using nth [of "n - 1"] npos ne len by (simp add: last_conv_nth)
  have gen: "slide_subtitles_gen split slide =
      Inr (map (\<lambda>g. g\<lparr>seg_text := strip (seg_text g)\<rparr>) segs)"
    using slide_subtitles_gen_eq [where slide = slide and split = split and sentences = sentences,
        OF assms(1) d0 assms(3,4)]
    by (simp add: segs_def f_def dur_def n_def case_prod_beta)
  have same: "slide_subtitles_gen split slide = Inr segs"
    if st: "\<forall>s\<in>set sentences. strip s = s"
  proof -
    have "map (\<lambda>g. g\<lparr>seg_text := strip (seg_text g)\<rparr>) segs = segs"
    proof (rule map_idI)
      fix g assume "g \<in> set segs"
      then obtain i where i: "i < n" "g = segs ! i" using len by (auto simp: in_set_conv_nth)
      then have "seg_text g = sentences ! i" using nth [of i] by simp
      then have "strip (seg_text g) = seg_text g" using st i(1) by (simp add: n_def)
      then show "g\<lparr>seg_text := strip (seg_text g)\<rparr> = g" by simp
    qed
    then show ?thesis using gen by simp
  qed
  have tot: "\<forall>s. \<exists>segs. slide_subtitles split s = Inr segs"
    using slide_subtitles_total by blast
  obtain earlier where earlier: "subtitles_loop (slide_subtitles split) before [] = Inr earlier"
    using subtitles_loop_total [OF tot] by blast
  obtain later where later: "subtitles_loop (slide_subtitles split) after [] = Inr later"
    using subtitles_loop_total [OF tot] by blast
  have "subtitles_loop (slide_subtitles split) (slide # after) [] = Inr (segs @ later)"
    using tot run later by (rule subtitles_loop_Cons)
  then have "subtitles_loop (slide_subtitles split) (before @ slide # after) [] =
      Inr (earlier @ segs @ later)"
    using subtitles_loop_append [OF tot earlier] by blast
  then have session: "\<exists>earlier later.
       generate_subtitles split (before @ slide # after) = Inr (earlier @ segs @ later) \<and>
       generate_subtitles split before = Inr earlier \<and>
       generate_subtitles split after = Inr later"
    using earlier later by (auto simp: generate_subtitles_def)
  define segs_gen where "segs_gen = map (\<lambda>g. g\<lparr>seg_text := strip (seg_text g)\<rparr>) segs"
  have gen': "slide_subtitles_gen split slide = Inr segs_gen"
    using gen by (simp add: segs_gen_def)
  have tot_gen: "\<forall>s. \<exists>segs. slide_subtitles_gen split s = Inr segs"
    using slide_subtitles_gen_total by blast
  obtain earlier_gen where
    earlier_gen: "subtitles_loop (slide_subtitles_gen split) before [] = Inr earlier_gen"
    using subtitles_loop_total [OF tot_gen] by blast
  obtain later_gen where
    later_gen: "subtitles_loop (slide_subtitles_gen split) after [] = Inr later_gen"
    using subtitles_loop_total [OF tot_gen] by blast
  have "subtitles_loop (slide_subtitles_gen split) (slide # after) [] =
      Inr (segs_gen @ later_gen)"
    using tot_gen gen' later_gen by (rule subtitles_loop_Cons)
  then have "subtitles_loop (slide_subtitles_gen split) (before @ slide # after) [] =
      Inr (earlier_gen @ segs_gen @ later_gen)"
    using subtitles_loop_append [OF tot_gen earlier_gen] by blast
  then have session_gen': "\<exists>earlier later.
       generate_subtitles_gen split (before @ slide # after) =
         Inr (earlier @ segs_gen @ later) \<and>
       generate_subtitles_gen split before = Inr earlier \<and>
       generate_subtitles_gen split after = Inr later"
    using earlier_gen later_gen by (auto simp: generate_subtitles_gen_def)
  have session_gen: "\<exists>earlier later.
       generate_subtitles_gen split (before @ slide # after) =
         Inr (earlier @ map (\<lambda>g. g\<lparr>seg_text := strip (seg_text g)\<rparr>) segs @ later) \<and>
       generate_subtitles_gen split before = Inr earlier \<and>
       generate_subtitles_gen split after = Inr later"
    using session_gen' unfolding segs_gen_def .
  have session_same: "\<exists>earlier later.
          generate_subtitles_gen split (before @ slide # after) =
            Inr (earlier @ segs @ later) \<and>
          generate_subtitles_gen split before = Inr earlier \<and>
          generate_subtitles_gen split after = Inr later"
    if st: "\<forall>s\<in>set sentences. strip s = s"
  proof -
    have "segs_gen = segs" using same [OF st] gen' by simp
    then show ?thesis using session_gen' by simp
  qed
  show ?thesis
    using run len nth width adj first last gen same session session_gen session_same
    unfolding n_def [symmetric] dur_def [symmetric] by blast
qed

lemma split_hi_yo:
  "split_into_sentences space_tokenize space_split (lit ''Hi. Yo.'') = [lit ''Hi.'', lit ''Yo.'']"
  by (simp add: split_into_sentences_def space_tokenize_def space_split_def lit_def
      strip_def isspace_def)

lemma strip_hi_yo: "strip (lit ''Hi. Yo.'') \<noteq> []"
  by (simp add: lit_def strip_def isspace_def)

theorem sentences_get_equal_contiguous_slices_witness:
  "generate_subtitles (split_into_sentences space_tokenize space_split)
     [\<lparr>slide_number = 2, image_path = [], narration_text = lit ''Hi. Yo.'',
       duration = 4, start_time = 3\<rparr>] =
   Inr [\<lparr>seg_text = lit ''Hi.'', seg_start_time = 3, seg_end_time = 5\<rparr>,
        \<lparr>seg_text = lit ''Yo.'', seg_start_time = 5, seg_end_time = 7\<rparr>] \<and>
   slide_subtitles_gen (split_into_sentences space_tokenize space_split)
     \<lparr>slide_number = 2, image_path = [], narration_text = lit ''Hi. Yo.'',
       duration = 4, start_time = 3\<rparr> =
   Inr [\<lparr>seg_text = lit ''Hi.'', seg_start_time = 3, seg_end_time = 5\<rparr>,
        \<lparr>seg_text = lit ''Yo.'', seg_start_time = 5, seg_end_time = 7\<rparr>] \<and>
   generate_subtitles_gen (split_into_sentences space_tokenize space_split)
     [\<lparr>slide_number = 2, image_path = [], narration_text = lit ''Hi. Yo.'',
       duration = 4, start_time = 3\<rparr>] =
   Inr [\<lparr>seg_text = lit ''Hi.'', seg_start_time = 3, seg_end_time = 5\<rparr>,
        \<lparr>seg_text = lit ''Yo.'', seg_start_time = 5, seg_end_time = 7\<rparr>]"
proof -
  let ?slide = "\<lparr>slide_number = 2, image_path = [], narration_text = lit ''Hi. Yo.'',
       duration = 4, start_time = 3\<rparr>"
  let ?split = "split_into_sentences space_tokenize space_split"
  have 1: "strip (narration_text ?slide) \<noteq> []" using strip_hi_yo by simp
  have 2: "0 < duration ?slide" by simp
  have 3: "?split (narration_text ?slide) = [lit ''Hi.'', lit ''Yo.'']"
    using split_hi_yo by simp
  have 4: "[lit ''Hi.'', lit ''Yo.''] \<noteq> []" by simp
  from sentences_get_equal_contiguous_slices
    [where slide = ?slide and split = ?split and sentences = "[lit ''Hi.'', lit ''Yo.'']"
       and before = "[]" and after = "[]", OF 1 2 3 4]
  obtain segs earlier later earlier_gen later_gen where
    len: "length segs = length [lit ''Hi.'', lit ''Yo.'']" and
    nth: "\<forall>i<length [lit ''Hi.'', lit ''Yo.''].
       segs ! i =
         \<lparr>seg_text = [lit ''Hi.'', lit ''Yo.''] ! i,
          seg_start_time =
            start_time ?slide +
            real i * (duration ?slide / real (length [lit ''Hi.'', lit ''Yo.''])),
          seg_end_time =
            start_time ?slide +
            real (i + 1) * (duration ?slide / real (length [lit ''Hi.'', lit ''Yo.'']))\<rparr>" and
    same: "(\<forall>s\<in>set [lit ''Hi.'', lit ''Yo.'']. strip s = s) \<longrightarrow>
       slide_subtitles_gen ?split ?slide = Inr segs" and
    all: "generate_subtitles ?split ([] @ ?slide # []) = Inr (earlier @ segs @ later)" and
    e: "generate_subtitles ?split [] = Inr earlier" and
    l: "generate_subtitles ?split [] = Inr later" and
    all_gen: "generate_subtitles_gen ?split ([] @ ?slide # []) =
       Inr (earlier_gen @ map (\<lambda>g. g\<lparr>seg_text := strip (seg_text g)\<rparr>) segs @ later_gen)" and
    e_gen: "generate_subtitles_gen ?split [] = Inr earlier_gen" and
    l_gen: "generate_subtitles_gen ?split [] = Inr later_gen"
    by (elim exE conjE)
  have "earlier = []" "later = []"
    using e l by (simp_all add: generate_subtitles_def)
  moreover have "earlier_gen = []" "later_gen = []"
    using e_gen l_gen by (simp_all add: generate_subtitles_gen_def)
  moreover have "strip (lit ''Hi.'') = lit ''Hi.''" "strip (lit ''Yo.'') = lit ''Yo.''"
    by (simp_all add: lit_def strip_def isspace_def)
  moreover have "segs = [segs ! 0, segs ! 1]"
    using len by (cases segs; cases "tl segs") auto
  moreover have "segs ! 0 = \<lparr>seg_text = lit ''Hi.'', seg_start_time = 3, seg_end_time = 5\<rparr>"
    using nth [rule_format, of 0] by simp
  moreover have "segs ! 1 = \<lparr>seg_text = lit ''Yo.'', seg_start_time = 5, seg_end_time = 7\<rparr>"
    using nth [rule_format, of 1] by simp
  moreover have "\<forall>s\<in>set [lit ''Hi.'', lit ''Yo.'']. strip s = s"
    using split_into_sentences_stripped [of _ space_tokenize space_split "lit ''Hi. Yo.''"]
    by (simp add: split_hi_yo)
  ultimately show ?thesis using all same all_gen by simp
qed

text \<open>
  Claim C7, as amended. A slide of duration 0 is skipped, whatever its sentences are: it
  gets no segment, in both versions.
\<close>

theorem slide_of_duration_zero_gets_no_segment:
  assumes "duration slide = 0"
  shows "slide_subtitles split slide = Inr [] \<and> slide_subtitles_gen split slide = Inr [] \<and>
    generate_subtitles split [slide] = Inr [] \<and> generate_subtitles_gen split [slide] = Inr []"
  using assms
  by (simp add: slide_subtitles_def slide_subtitles_gen_def generate_subtitles_def
      generate_subtitles_gen_def)

lemma split_a: "split_into_sentences space_tokenize space_split (lit ''a'') = [lit ''a'']"
  by (simp add: split_into_sentences_def space_tokenize_def space_split_def lit_def
      strip_def isspace_def)

text \<open>
  Claim C7 as stated fails: with duration 0 and the one sentence \<^verbatim>\<open>a\<close> the result is empty,
  not one segment from 0 to 0.
\<close>

theorem allocate_zero_duration_one_sentence:
  "split_into_sentences space_tokenize space_split (lit ''a'') = [lit ''a''] \<and>
   generate_subtitles (split_into_sentences space_tokenize space_split)
     [\<lparr>slide_number = 1, image_path = [], narration_text = lit ''a'',
       duration = 0, start_time = 0\<rparr>] = Inr []"
  using split_a
  by (simp add: generate_subtitles_def slide_subtitles_def)

theorem slide_of_duration_zero_gets_no_segment_witness:
  "duration \<lparr>slide_number = 1, image_path = [], narration_text = lit ''a'',
       duration = 0, start_time = 0\<rparr> = 0 \<and>
   generate_subtitles_gen (split_into_sentences space_tokenize space_split)
     [\<lparr>slide_number = 1, image_path = [], narration_text = lit ''a'',
       duration = 0, start_time = 0\<rparr>] = Inr []"
proof -
  let ?slide = "\<lparr>slide_number = 1, image_path = [], narration_text = lit ''a'',
       duration = 0, start_time = 0\<rparr>"
  have d: "duration ?slide = 0" by simp
  from slide_of_duration_zero_gets_no_segment [OF d]
  show ?thesis by simp
qed

lemma slide_subtitles_no_sentences:
  "split (narration_text slide) = [] \<Longrightarrow>
   slide_subtitles split slide = Inr [] \<and> slide_subtitles_gen split slide = Inr []"
  by (simp add: slide_subtitles_def slide_subtitles_gen_def)

lemma split_into_sentences_blank:
  "sent_tokenize text' = Some raw \<Longrightarrow> \<forall>s\<in>set raw. strip s = [] \<Longrightarrow>
   split_into_sentences sent_tokenize re_split text' = []"
  by (simp add: split_into_sentences_def filter_empty_conv)

text \<open>
  Claim C8. Without slides, or when no slide has a sentence (as when the tokenizer returns
  only blank strings), the subtitles are the empty list; without durations or without cues
  the re-binner returns the empty dict. Every one of these results is a value: no
  division by zero and no missing key.
\<close>

theorem empty_input_gives_empty_result:
  "generate_subtitles split [] = Inr [] \<and>
   generate_subtitles_gen split [] = Inr [] \<and>
   ((\<forall>s\<in>set slides. split (narration_text s) = []) \<longrightarrow>
      generate_subtitles split slides = Inr [] \<and>
      generate_subtitles_gen split slides = Inr []) \<and>
   (sent_tokenize narration = Some raw \<and> (\<forall>s\<in>set raw. strip s = []) \<longrightarrow>
      split_into_sentences sent_tokenize re_split narration = []) \<and>
   subtitles_by_slide subs [] = Inr [] \<and>
   subtitles_by_slide [] durs = Inr [] \<and>
   parse_srt_file split_blocks timing content [] = Inr [] \<and>
   (parse_blocks timing (split_blocks (strip content)) [] = [] \<longrightarrow>
      parse_srt_file split_blocks timing content durs = Inr [])"
proof -
  have a: "generate_subtitles split [] = Inr []" "generate_subtitles_gen split [] = Inr []"
    by (simp_all add: generate_subtitles_def generate_subtitles_gen_def)
  have b: "generate_subtitles split slides = Inr [] \<and>
      generate_subtitles_gen split slides = Inr []"
    if h: "\<forall>s\<in>set slides. split (narration_text s) = []"
  proof -
    have "\<forall>s\<in>set slides. slide_subtitles split s = Inr []"
      using h slide_subtitles_no_sentences by blast
    moreover have "\<forall>s\<in>set slides. slide_subtitles_gen split s = Inr []"
      using h slide_subtitles_no_sentences by blast
    ultimately show ?thesis
      by (simp add: generate_subtitles_def generate_subtitles_gen_def
          subtitles_loop_all_empty)
  qed
  have c: "split_into_sentences sent_tokenize re_split narration = []"
    if "sent_tokenize narration = Some raw \<and> (\<forall>s\<in>set raw. strip s = [])"
    using that split_into_sentences_blank by blast
  have d: "parse_srt_file split_blocks timing content [] = Inr []"
    using rebinner_empty_input by (simp add: parse_srt_file_eq)
  have e: "parse_srt_file split_blocks timing content durs = Inr []"
    if "parse_blocks timing (split_blocks (strip content)) [] = []"
    using that rebinner_empty_input [of _ durs] by (simp add: parse_srt_file_eq)
  show ?thesis using a b c d e rebinner_empty_input by blast
qed

lemma split_spaces:
  "split_into_sentences space_tokenize space_split (lit ''  '') = []"
  by (simp add: split_into_sentences_def space_tokenize_def space_split_def lit_def
      strip_def isspace_def)

theorem empty_input_gives_empty_result_witness:
  "split_into_sentences space_tokenize space_split (lit ''  '') = [] \<and>
   generate_subtitles (split_into_sentences space_tokenize space_split)
     [\<lparr>slide_number = 1, image_path = [], narration_text = lit ''  '',
       duration = 3, start_time = 0\<rparr>] = Inr []"
proof -
  let ?split = "split_into_sentences space_tokenize space_split"
  let ?slides = "[\<lparr>slide_number = 1, image_path = [], narration_text = lit ''  '',
       duration = 3 :: real, start_time = 0 :: real\<rparr>]"
  have h: "\<forall>s\<in>set ?slides. ?split (narration_text s) = []" using split_spaces by simp
  from empty_input_gives_empty_result [where split = ?split and slides = ?slides] h
  have "generate_subtitles ?split ?slides = Inr []" by blast
  then show ?thesis using split_spaces by simp
qed

theorem clean_for_tts_ends_sentence_witness:
  "clean_for_tts keep_text (lit ''Hi'') = lit ''Hi.'' \<and>
   clean_for_tts_gen keep_text (lit ''Hi'') = lit ''Hi.'' \<and>
   clean_for_tts keep_text (lit ''Hi'') \<noteq> [] \<and>
   last (clean_for_tts keep_text (lit ''Hi'')) \<in> set (lit ''.!?'')"
proof -
  have ne: "clean_for_tts keep_text (lit ''Hi'') \<noteq> []" using clean_hi by (simp add: lit_def)
  from clean_for_tts_ends_sentence [of keep_text "lit ''Hi''"] ne
  have "last (clean_for_tts keep_text (lit ''Hi'')) \<in> set (lit ''.!?'')" by blast
  then show ?thesis using clean_hi clean_gen_hi ne by simp
qed

end
